theory Spec2Isabelle
  imports Main "HOL-Library.Word"
begin

section \<open>Bytes, addresses and memory\<close>

text \<open>
  The scanner of \<^verbatim>\<open>libhat/Scanner.hpp\<close> works on raw pointers to bytes. A pointer
  \<^verbatim>\<open>const std::byte*\<close> is modelled by its numeric value, an integer; \<^verbatim>\<open>nullptr\<close>
  is the value 0. Pointer arithmetic is integer arithmetic (the C++ standard leaves overflow of
  pointer arithmetic undefined, so no wrap-around is modelled for pointers).
  \<^verbatim>\<open>size_t\<close> and \<^verbatim>\<open>uintptr_t\<close> are 64-bit unsigned and a conversion to them is
  written out as a reduction modulo \<open>2 ^ 64\<close>.

  Memory is a partial map from addresses to bytes: an address outside its domain is not
  readable. Everything the C++ standard leaves undefined (a read of an unreadable address, an
  iterator range whose end lies before its start, the dereference of an empty
  \<^verbatim>\<open>std::optional\<close>) is the outcome \<open>Undefined\<close> of the model.
\<close>

type_synonym byte = "8 word"
type_synonym addr = int
type_synonym memory = "addr \<Rightarrow> byte option"

definition nullptr :: addr where
  "nullptr = 0"

datatype 'a outcome = Returns 'a | Undefined

definition size_t_of :: "int \<Rightarrow> nat" where
  \<comment> \<open>\<^verbatim>\<open>static_cast<size_t>(d)\<close> of a \<^verbatim>\<open>ptrdiff_t\<close>\<close>
  "size_t_of d = nat (d mod 2 ^ 64)"

definition uintptr_t_of :: "addr \<Rightarrow> int" where
  \<comment> \<open>\<^verbatim>\<open>reinterpret_cast<uintptr_t>(ptr)\<close>\<close>
  "uintptr_t_of p = p mod 2 ^ 64"

section \<open>Signatures\<close>

text \<open>
  \<^verbatim>\<open>Signature.hpp\<close> declares a signature element as an optional byte and a
  \<^verbatim>\<open>signature_view\<close> as a read-only span of elements: \<open>None\<close> is the wildcard.
\<close>

type_synonym signature_element = "byte option"
type_synonym signature_view = "signature_element list"

section \<open>Scan results\<close>

record scan_result_base =
  result :: addr

type_synonym const_scan_result = scan_result_base

definition has_result :: "scan_result_base \<Rightarrow> bool" where
  "has_result r = (result r \<noteq> nullptr)"

definition get :: "scan_result_base \<Rightarrow> addr" where
  "get r = result r"

text \<open>
  \<^verbatim>\<open>read<Int>(offset)\<close> loads an integer from the bytes at \<^verbatim>\<open>result + offset\<close>.
  Only \<^verbatim>\<open>rel_t = int32_t\<close> is needed below. How the four bytes make up the integer is
  the byte order of the machine, a parameter of the model.
\<close>

datatype byte_order = LittleEndian | BigEndian

fun read_bytes :: "memory \<Rightarrow> addr \<Rightarrow> nat \<Rightarrow> byte list outcome" where
  "read_bytes mem a 0 = Returns []"
| "read_bytes mem a (Suc n) =
     (case mem a of
        None \<Rightarrow> Undefined
      | Some b \<Rightarrow>
          (case read_bytes mem (a + 1) n of
             Undefined \<Rightarrow> Undefined
           | Returns bs \<Rightarrow> Returns (b # bs)))"

fun le_value :: "byte list \<Rightarrow> nat" where
  "le_value [] = 0"
| "le_value (b # bs) = unat b + 256 * le_value bs"

definition int32_of_bytes :: "byte_order \<Rightarrow> byte list \<Rightarrow> 32 word" where
  "int32_of_bytes bo bs =
     (case bo of
        LittleEndian \<Rightarrow> word_of_nat (le_value bs)
      | BigEndian \<Rightarrow> word_of_nat (le_value (rev bs)))"

definition read_rel_t :: "byte_order \<Rightarrow> memory \<Rightarrow> scan_result_base \<Rightarrow> nat \<Rightarrow> 32 word outcome" where
  \<comment> \<open>\<^verbatim>\<open>read<rel_t>(offset)\<close>\<close>
  "read_rel_t bo mem r offset =
     (case read_bytes mem (result r + int offset) 4 of
        Undefined \<Rightarrow> Undefined
      | Returns bs \<Rightarrow> Returns (int32_of_bytes bo bs))"

definition rel :: "byte_order \<Rightarrow> memory \<Rightarrow> scan_result_base \<Rightarrow> nat \<Rightarrow> addr outcome" where
  \<comment> \<open>\<^verbatim>\<open>has_result() ? result + read<rel_t>(offset) + offset + sizeof(rel_t) : nullptr\<close>\<close>
  "rel bo mem r offset =
     (if has_result r then
        (case read_rel_t bo mem r offset of
           Undefined \<Rightarrow> Undefined
         | Returns d \<Rightarrow> Returns (result r + sint d + int offset + 4))
      else Returns nullptr)"

section \<open>Alignment\<close>

datatype scan_alignment = X1 | X16

fun alignment_stride :: "scan_alignment \<Rightarrow> int" where
  "alignment_stride X1 = 1"
| "alignment_stride X16 = 16"

definition next_boundary_align :: "scan_alignment \<Rightarrow> addr \<Rightarrow> addr" where
  "next_boundary_align alignment ptr =
     (let stride = alignment_stride alignment in
      if stride = 1 then ptr
      else
        (let md = uintptr_t_of ptr mod stride in
         ptr + (if md \<noteq> 0 then stride - md else 0)))"

definition prev_boundary_align :: "scan_alignment \<Rightarrow> addr \<Rightarrow> addr" where
  "prev_boundary_align alignment ptr =
     (let stride = alignment_stride alignment in
      if stride = 1 then ptr
      else
        (let md = uintptr_t_of ptr mod stride in
         ptr - md))"

section \<open>Scan context\<close>

type_synonym scan_hint = "64 word"

definition scan_hint_none :: scan_hint where
  "scan_hint_none = 0"

definition scan_hint_x86_64 :: scan_hint where
  "scan_hint_x86_64 = push_bit 0 1"

datatype scan_mode = FastFirst | SSE | AVX2 | AVX512

definition Single :: scan_mode where
  \<comment> \<open>\<^verbatim>\<open>Single = FastFirst\<close>: the fallback mode\<close>
  "Single = FastFirst"

text \<open>
  The context stores a pointer to one specialisation \<^verbatim>\<open>find_pattern<mode, alignment>\<close>.
  The pointer is modelled by the pair that names the specialisation.
\<close>

record scan_context =
  signature :: signature_view
  scanner :: "scan_mode \<times> scan_alignment"
  alignment :: scan_alignment
  vectorSize :: nat
  hints :: scan_hint

text \<open>
  \<^verbatim>\<open>resolve_scanner\<close> and \<^verbatim>\<open>apply_hints\<close> are declared in \<^verbatim>\<open>Scanner.hpp\<close> and
  defined per platform: they are parameters of the model, as is whether the call is evaluated
  in a constant-evaluation context (\<^verbatim>\<open>LIBHAT_IF_CONSTEVAL\<close>).
\<close>

record runtime_env =
  resolve_scanner :: "scan_alignment \<Rightarrow> (scan_mode \<times> scan_alignment) \<times> nat"
  apply_hints :: "scan_context \<Rightarrow> scan_context"

section \<open>The library primitives the kernels use\<close>

text \<open>
  \<^verbatim>\<open>std::find(first, last, v)\<close> walks from \<open>first\<close> to its end \<open>lst\<close> and returns
  the first position holding \<open>v\<close>, or \<open>lst\<close>. A range whose end lies before its start is
  not a valid range.
\<close>

function std_find :: "memory \<Rightarrow> addr \<Rightarrow> addr \<Rightarrow> byte \<Rightarrow> addr outcome" where
  "std_find mem first lst v =
     (if lst < first then Undefined
      else if first = lst then Returns lst
      else
        (case mem first of
           None \<Rightarrow> Undefined
         | Some b \<Rightarrow> if b = v then Returns first else std_find mem (first + 1) lst v))"
  by pat_completeness auto
termination
  by (relation "measure (\<lambda>(mem, first, lst, v). nat (lst - first))") auto

declare std_find.simps [simp del]

text \<open>
  \<^verbatim>\<open>std::equal(first1, last1, first2, pred)\<close> with the kernels' predicate
  \<^verbatim>\<open>!opt.has_value() || *opt == byte\<close>. Both iterators are dereferenced before the
  predicate is called, so the byte under a wildcard is read too; the comparison stops at the
  first mismatch.
\<close>

fun std_equal :: "memory \<Rightarrow> signature_view \<Rightarrow> addr \<Rightarrow> bool outcome" where
  "std_equal mem [] a = Returns True"
| "std_equal mem (opt # rest) a =
     (case mem a of
        None \<Rightarrow> Undefined
      | Some b \<Rightarrow>
          if opt = None \<or> the opt = b then std_equal mem rest (a + 1) else Returns False)"

lemma std_find_bounds:
  "std_find mem first lst v = Returns j \<Longrightarrow> first \<le> j \<and> j \<le> lst"
proof (induction mem first lst v rule: std_find.induct)
  case (1 mem first lst v)
  show ?case
  proof (cases "lst < first \<or> first = lst")
    case True
    with "1.prems" show ?thesis
      by (auto simp: std_find.simps [of mem first lst v] split: if_splits)
  next
    case False
    then obtain b where b: "mem first = Some b"
      using "1.prems" by (cases "mem first") (auto simp: std_find.simps [of mem first lst v])
    show ?thesis
    proof (cases "b = v")
      case True
      with False b "1.prems" show ?thesis
        by (auto simp: std_find.simps [of mem first lst v])
    next
      case neq: False
      with False b "1.prems" have "std_find mem (first + 1) lst v = Returns j"
        by (auto simp: std_find.simps [of mem first lst v])
      with "1.IH" [OF _ _ b neq] False show ?thesis by auto
    qed
  qed
qed

section \<open>The scalar kernels\<close>

text \<open>
  \<^verbatim>\<open>find_pattern<scan_mode::FastFirst, scan_alignment::X1>\<close>. The loop
  \<^verbatim>\<open>for (auto i = begin; i != scanEnd; i++)\<close> with its body; the two branches of
  \<^verbatim>\<open>LIBHAT_IF_CONSTEVAL\<close> call the same \<^verbatim>\<open>std::find\<close>, once with an execution
  policy.
\<close>

function FastFirst_X1_loop ::
  "memory \<Rightarrow> byte \<Rightarrow> signature_view \<Rightarrow> addr \<Rightarrow> addr \<Rightarrow> const_scan_result outcome" where
  "FastFirst_X1_loop mem firstByte rest i scanEnd =
     (if i = scanEnd then Returns \<lparr>result = nullptr\<rparr>
      else
        (case std_find mem i scanEnd firstByte of
           Undefined \<Rightarrow> Undefined
         | Returns j \<Rightarrow>
             if j = scanEnd then Returns \<lparr>result = nullptr\<rparr>
             else
               (case std_equal mem rest (j + 1) of
                  Undefined \<Rightarrow> Undefined
                | Returns match \<Rightarrow>
                    if match then Returns \<lparr>result = j\<rparr>
                    else FastFirst_X1_loop mem firstByte rest (j + 1) scanEnd)))"
  by pat_completeness auto
termination
proof (relation "measure (\<lambda>(mem, firstByte, rest, i, scanEnd). nat (scanEnd - i))")
  show "wf (measure (\<lambda>(mem, firstByte, rest, i, scanEnd). nat (scanEnd - i)))"
    by simp
next
  fix mem :: memory and firstByte :: byte and rest :: signature_view
    and i scanEnd j :: addr and m :: bool
  assume "std_find mem i scanEnd firstByte = Returns j" and "j \<noteq> scanEnd"
  then have "i \<le> j \<and> j < scanEnd"
    using std_find_bounds [of mem i scanEnd firstByte j] by auto
  then show "((mem, firstByte, rest, j + 1, scanEnd), (mem, firstByte, rest, i, scanEnd))
      \<in> measure (\<lambda>(mem, firstByte, rest, i, scanEnd). nat (scanEnd - i))"
    by simp
qed

declare FastFirst_X1_loop.simps [simp del]

definition find_pattern_FastFirst_X1 ::
  "memory \<Rightarrow> addr \<Rightarrow> addr \<Rightarrow> scan_context \<Rightarrow> const_scan_result outcome" where
  "find_pattern_FastFirst_X1 mem pbegin pend context =
     (case signature context of
        [] \<Rightarrow> Undefined
      | None # rest \<Rightarrow> Undefined
      | Some firstByte # rest \<Rightarrow>
          (let scanEnd = pend - int (length (signature context)) + 1
           in FastFirst_X1_loop mem firstByte rest pbegin scanEnd))"

text \<open>
  \<^verbatim>\<open>find_pattern<scan_mode::FastFirst, scan_alignment::X16>\<close>. The loop
  \<^verbatim>\<open>for (auto i = scanBegin; i != scanEnd; i += 16)\<close>; a cursor that has stepped past
  \<open>scanEnd\<close> never meets it.
\<close>

function FastFirst_X16_loop ::
  "memory \<Rightarrow> byte \<Rightarrow> signature_view \<Rightarrow> addr \<Rightarrow> addr \<Rightarrow> const_scan_result outcome" where
  "FastFirst_X16_loop mem firstByte rest i scanEnd =
     (if i = scanEnd then Returns \<lparr>result = nullptr\<rparr>
      else if scanEnd < i then Undefined
      else
        (case mem i of
           None \<Rightarrow> Undefined
         | Some b \<Rightarrow>
             if b = firstByte then
               (case std_equal mem rest (i + 1) of
                  Undefined \<Rightarrow> Undefined
                | Returns match \<Rightarrow>
                    if match then Returns \<lparr>result = i\<rparr>
                    else FastFirst_X16_loop mem firstByte rest (i + 16) scanEnd)
             else FastFirst_X16_loop mem firstByte rest (i + 16) scanEnd))"
  by pat_completeness auto
termination
  by (relation "measure (\<lambda>(mem, firstByte, rest, i, scanEnd). nat (scanEnd - i))") auto

declare FastFirst_X16_loop.simps [simp del]

definition find_pattern_FastFirst_X16 ::
  "memory \<Rightarrow> addr \<Rightarrow> addr \<Rightarrow> scan_context \<Rightarrow> const_scan_result outcome" where
  "find_pattern_FastFirst_X16 mem pbegin pend context =
     (case signature context of
        [] \<Rightarrow> Undefined
      | None # rest \<Rightarrow> Undefined
      | Some firstByte # rest \<Rightarrow>
          (let scanBegin = next_boundary_align X16 pbegin;
               scanEnd = prev_boundary_align X16 (pend - int (length (signature context)) + 1)
           in if scanBegin \<ge> scanEnd then Returns \<lparr>result = nullptr\<rparr>
              else FastFirst_X16_loop mem firstByte rest scanBegin scanEnd))"

section \<open>Truncation of leading wildcards\<close>

fun truncate_offset :: "signature_view \<Rightarrow> nat" where
  \<comment> \<open>the loop of \<^verbatim>\<open>detail::truncate\<close>: count elements until the first one with a value\<close>
  "truncate_offset [] = 0"
| "truncate_offset (elem # elems) =
     (if elem \<noteq> None then 0 else Suc (truncate_offset elems))"

definition truncate :: "signature_view \<Rightarrow> nat \<times> signature_view" where
  "truncate sig = (let offset = truncate_offset sig in (offset, drop offset sig))"

section \<open>Kernel selection\<close>

text \<open>
  Modelled from the spec: the vector kernels, the specialisations of
  \<^verbatim>\<open>detail::find_pattern\<close> for the modes SSE, AVX2 and AVX512, are declared in
  \<^verbatim>\<open>Scanner.hpp\<close> and defined elsewhere. The specification gives every mode and alignment
  one contract: the kernel searches \<open>[begin, end)\<close> for the first starting position \<open>p\<close>
  such that every signature element is a wildcard or equals the byte at its place; stride 1
  considers every byte in \<open>[begin, end - len + 1)\<close>, stride 16 only the positions stepped
  from the first 16-aligned address at or after \<open>begin\<close>.
\<close>

fun compare_at :: "memory \<Rightarrow> signature_view \<Rightarrow> addr \<Rightarrow> bool outcome" where
  \<comment> \<open>Modelled from the spec: the comparison of a whole signature with the bytes at \<open>p\<close>\<close>
  "compare_at mem [] p = Returns True"
| "compare_at mem (elem # elems) p =
     (case mem p of
        None \<Rightarrow> Undefined
      | Some b \<Rightarrow>
          (case compare_at mem elems (p + 1) of
             Undefined \<Rightarrow> Undefined
           | Returns m \<Rightarrow> Returns ((elem = None \<or> elem = Some b) \<and> m)))"

function vector_loop ::
  "scan_alignment \<Rightarrow> memory \<Rightarrow> signature_view \<Rightarrow> addr \<Rightarrow> addr \<Rightarrow> const_scan_result outcome" where
  \<comment> \<open>Modelled from the spec: the candidates of a vector kernel, lowest address first\<close>
  "vector_loop al mem sig p scanEnd =
     (if scanEnd \<le> p then Returns \<lparr>result = nullptr\<rparr>
      else
        (case compare_at mem sig p of
           Undefined \<Rightarrow> Undefined
         | Returns m \<Rightarrow>
             if m then Returns \<lparr>result = p\<rparr>
             else vector_loop al mem sig (p + alignment_stride al) scanEnd))"
  by pat_completeness auto
termination
proof (relation "measure (\<lambda>(al, mem, sig, p, scanEnd). nat (scanEnd - p))")
  show "wf (measure (\<lambda>(al, mem, sig, p, scanEnd). nat (scanEnd - p)))"
    by simp
next
  fix al :: scan_alignment and mem :: memory and sig :: signature_view and p scanEnd :: addr
  assume "\<not> scanEnd \<le> p"
  moreover have "0 < alignment_stride al"
    by (cases al) simp_all
  ultimately show "((al, mem, sig, p + alignment_stride al, scanEnd), (al, mem, sig, p, scanEnd))
      \<in> measure (\<lambda>(al, mem, sig, p, scanEnd). nat (scanEnd - p))"
    by simp
qed

declare vector_loop.simps [simp del]

definition find_pattern_vector ::
  "scan_alignment \<Rightarrow> memory \<Rightarrow> addr \<Rightarrow> addr \<Rightarrow> scan_context \<Rightarrow> const_scan_result outcome" where
  \<comment> \<open>Modelled from the spec: \<^verbatim>\<open>find_pattern<mode, alignment>\<close> for a vector mode\<close>
  "find_pattern_vector al mem pbegin pend context =
     vector_loop al mem (signature context) (next_boundary_align al pbegin)
       (pend - int (length (signature context)) + 1)"

fun find_pattern_kernel ::
  "scan_mode \<times> scan_alignment \<Rightarrow> memory \<Rightarrow> addr \<Rightarrow> addr \<Rightarrow> scan_context
     \<Rightarrow> const_scan_result outcome" where
  "find_pattern_kernel (FastFirst, X1) = find_pattern_FastFirst_X1"
| "find_pattern_kernel (FastFirst, X16) = find_pattern_FastFirst_X16"
| "find_pattern_kernel (mode, al) = find_pattern_vector al"

definition scan :: "scan_context \<Rightarrow> memory \<Rightarrow> addr \<Rightarrow> addr \<Rightarrow> const_scan_result outcome" where
  \<comment> \<open>\<^verbatim>\<open>this->scanner(begin, end, *this)\<close>\<close>
  "scan context mem pbegin pend = find_pattern_kernel (scanner context) mem pbegin pend context"

definition create ::
  "bool \<Rightarrow> runtime_env \<Rightarrow> scan_alignment \<Rightarrow> signature_view \<Rightarrow> scan_hint \<Rightarrow> scan_context" where
  "create consteval env al sig hnts =
     (if consteval then
        \<lparr>signature = sig, scanner = (Single, al), alignment = al, vectorSize = 0, hints = hnts\<rparr>
      else
        (let (scn, vsize) = resolve_scanner env al
         in apply_hints env
              \<lparr>signature = sig, scanner = scn, alignment = al, vectorSize = vsize,
               hints = hnts\<rparr>))"

section \<open>Public entry points\<close>

definition find_pattern ::
  "bool \<Rightarrow> runtime_env \<Rightarrow> scan_alignment \<Rightarrow> memory \<Rightarrow> addr \<Rightarrow> addr \<Rightarrow> signature_view
     \<Rightarrow> scan_hint \<Rightarrow> scan_result_base outcome" where
  "find_pattern consteval env al mem beginIt endIt sig hnts =
     (let (offset, trunc) = truncate sig;
          pbegin = beginIt + int offset;
          pend = endIt
      in if pbegin \<ge> pend \<or> length trunc > size_t_of (pend - pbegin)
         then Returns \<lparr>result = nullptr\<rparr>
         else
           (let context = create consteval env al trunc hnts
            in case scan context mem pbegin pend of
                 Undefined \<Rightarrow> Undefined
               | Returns r \<Rightarrow>
                   Returns (if has_result r then \<lparr>result = get r - int offset\<rparr>
                            else \<lparr>result = nullptr\<rparr>)))"

text \<open>
  The bounded \<^verbatim>\<open>find_all_pattern\<close>. The output range is a cursor \<open>out\<close> with its end
  \<open>endOut\<close>; the results written so far are the list \<open>written\<close>. The loop returns the
  final cursors \<open>(i, out)\<close> and the written results.
\<close>

function find_all_bounded_loop ::
  "scan_context \<Rightarrow> memory \<Rightarrow> addr \<Rightarrow> nat \<Rightarrow> int \<Rightarrow> nat \<Rightarrow> nat \<Rightarrow> addr \<Rightarrow> nat
     \<Rightarrow> scan_result_base list \<Rightarrow> (addr \<times> nat \<times> scan_result_base list) outcome" where
  "find_all_bounded_loop context mem pend offset stride trunc_size endOut i out written =
     (if endOut < out then Undefined
      else if i < pend \<and> out \<noteq> endOut \<and> trunc_size \<le> size_t_of (pend - i) then
        (case scan context mem i pend of
           Undefined \<Rightarrow> Undefined
         | Returns r \<Rightarrow>
             if \<not> has_result r then Returns (pend, out, written)
             else
               (let a = get r - int offset
                in find_all_bounded_loop context mem pend offset stride trunc_size endOut
                     (a + stride) (out + 1) (written @ [\<lparr>result = a\<rparr>])))
      else Returns (i, out, written))"
  by pat_completeness auto
termination
  by (relation "measure (\<lambda>(context, mem, pend, offset, stride, trunc_size, endOut, i, out, written).
        endOut - out)") auto

declare find_all_bounded_loop.simps [simp del]

definition find_all_pattern_bounded ::
  "bool \<Rightarrow> runtime_env \<Rightarrow> scan_alignment \<Rightarrow> memory \<Rightarrow> addr \<Rightarrow> addr \<Rightarrow> nat \<Rightarrow> nat
     \<Rightarrow> signature_view \<Rightarrow> scan_hint \<Rightarrow> (addr \<times> nat \<times> scan_result_base list) outcome" where
  "find_all_pattern_bounded consteval env al mem beginIn endIn beginOut endOut sig hnts =
     (let (offset, trunc) = truncate sig;
          pbegin = beginIn + int offset;
          pend = endIn;
          context = create consteval env al trunc hnts
      in case find_all_bounded_loop context mem pend offset (alignment_stride al)
                (length trunc) endOut pbegin beginOut [] of
           Undefined \<Rightarrow> Undefined
         | Returns (i, out, written) \<Rightarrow> Returns (beginIn + (i - pbegin), out, written))"

text \<open>
  The counted \<^verbatim>\<open>find_all_pattern\<close>, the root implementation. Its loop has no bound of
  its own, so the model runs it on fuel: \<open>None\<close> says that the fuel ran out before the loop
  was left. \<^verbatim>\<open>matches\<close> is a \<^verbatim>\<open>size_t\<close>.
\<close>

fun find_all_counted_loop ::
  "nat \<Rightarrow> scan_context \<Rightarrow> memory \<Rightarrow> addr \<Rightarrow> addr \<Rightarrow> nat \<Rightarrow> int \<Rightarrow> nat \<Rightarrow> addr
     \<Rightarrow> scan_result_base list \<Rightarrow> 64 word \<Rightarrow> (64 word \<times> scan_result_base list) outcome option" where
  "find_all_counted_loop 0 context mem pbegin pend offset stride trunc_size i written matches = None"
| "find_all_counted_loop (Suc fuel) context mem pbegin pend offset stride trunc_size i written
       matches =
     (if pbegin < pend \<and> trunc_size \<le> size_t_of (pend - i) then
        (case scan context mem i pend of
           Undefined \<Rightarrow> Some Undefined
         | Returns r \<Rightarrow>
             if \<not> has_result r then Some (Returns (matches, written))
             else
               (let a = get r - int offset
                in find_all_counted_loop fuel context mem pbegin pend offset stride trunc_size
                     (a + stride) (written @ [\<lparr>result = a\<rparr>]) (matches + 1)))
      else Some (Returns (matches, written)))"

definition find_all_pattern_counted ::
  "nat \<Rightarrow> bool \<Rightarrow> runtime_env \<Rightarrow> scan_alignment \<Rightarrow> memory \<Rightarrow> addr \<Rightarrow> addr
     \<Rightarrow> signature_view \<Rightarrow> scan_hint \<Rightarrow> (64 word \<times> scan_result_base list) outcome option" where
  "find_all_pattern_counted fuel consteval env al mem beginIn endIn sig hnts =
     (let (offset, trunc) = truncate sig;
          pbegin = beginIn + int offset;
          pend = endIn;
          context = create consteval env al trunc hnts
      in find_all_counted_loop fuel context mem pbegin pend offset (alignment_stride al)
           (length trunc) pbegin [] 0)"

section \<open>The match predicate\<close>

text \<open>
  The signature matches at \<open>p\<close> when every element is a wildcard or equals the byte at its
  place.
\<close>

fun matches_at :: "memory \<Rightarrow> signature_view \<Rightarrow> addr \<Rightarrow> bool" where
  "matches_at mem [] p = True"
| "matches_at mem (elem # elems) p =
     ((elem = None \<or> mem p = elem) \<and> matches_at mem elems (p + 1))"

definition readable :: "memory \<Rightarrow> addr \<Rightarrow> addr \<Rightarrow> bool" where
  "readable mem lo hi = (\<forall>a. lo \<le> a \<and> a < hi \<longrightarrow> mem a \<noteq> None)"

definition bytes_at :: "addr \<Rightarrow> byte list \<Rightarrow> memory" where
  \<comment> \<open>a memory that holds the given bytes from the address \<open>base\<close> on, and nothing else\<close>
  "bytes_at base bs =
     (\<lambda>a. if base \<le> a \<and> a < base + int (length bs) then Some (bs ! nat (a - base)) else None)"

text \<open>
  The positions that the scalar kernels examine on \<open>[pbegin, pend)\<close> for a signature of
  length \<open>len\<close>, and what it means for a result to be the first hit among candidates: it is
  null and no candidate is a hit, or it is a candidate and a hit and no lower candidate is.
\<close>

definition scalar_candidate :: "scan_alignment \<Rightarrow> addr \<Rightarrow> addr \<Rightarrow> nat \<Rightarrow> addr \<Rightarrow> bool" where
  "scalar_candidate al pbegin pend len p =
     (pbegin \<le> p \<and> p < prev_boundary_align al (pend - int len + 1) \<and> p mod alignment_stride al = 0)"

definition first_match :: "(addr \<Rightarrow> bool) \<Rightarrow> (addr \<Rightarrow> bool) \<Rightarrow> scan_result_base \<Rightarrow> bool" where
  "first_match cand hit r =
     ((r = \<lparr>result = nullptr\<rparr> \<and> (\<forall>p. cand p \<longrightarrow> \<not> hit p))
      \<or> (cand (result r) \<and> hit (result r) \<and> (\<forall>p. cand p \<and> p < result r \<longrightarrow> \<not> hit p)))"

text \<open>
  The invariants of a signature: it is not empty, and after truncation its first element is
  concrete. \<open>scalar_kernel_selected\<close> says that the context built for a call stores the
  scalar kernel of the call's alignment and the truncated signature; this is so in every
  constant-evaluated call, and at run time when the dispatcher resolves the scalar kernel.
  A position is in the range when the whole signature fits between it and the end.
  \<open>admissible\<close> is the alignment condition as the code has it: the address of the first
  concrete element, \<open>p + offset\<close>, is a multiple of the stride.
\<close>

definition signature_invariants :: "signature_view \<Rightarrow> bool" where
  "signature_invariants sig =
     (sig \<noteq> [] \<and> (case snd (truncate sig) of [] \<Rightarrow> False | elem # elems \<Rightarrow> elem \<noteq> None))"

definition scalar_kernel_selected ::
  "bool \<Rightarrow> runtime_env \<Rightarrow> scan_alignment \<Rightarrow> signature_view \<Rightarrow> scan_hint \<Rightarrow> bool" where
  "scalar_kernel_selected consteval env al trunc hnts =
     (scanner (create consteval env al trunc hnts) = (FastFirst, al)
      \<and> signature (create consteval env al trunc hnts) = trunc)"

definition in_range :: "addr \<Rightarrow> addr \<Rightarrow> signature_view \<Rightarrow> addr \<Rightarrow> bool" where
  "in_range beginIt endIt sig p = (beginIt \<le> p \<and> p + int (length sig) \<le> endIt)"

definition admissible :: "scan_alignment \<Rightarrow> signature_view \<Rightarrow> addr \<Rightarrow> bool" where
  "admissible al sig p = ((p + int (truncate_offset sig)) mod alignment_stride al = 0)"

definition scalar_env :: runtime_env where
  \<comment> \<open>a machine on which the dispatcher resolves the scalar kernel and hints change nothing\<close>
  "scalar_env = \<lparr>resolve_scanner = (\<lambda>al. ((FastFirst, al), 0)), apply_hints = (\<lambda>context. context)\<rparr>"

definition avx2_env :: runtime_env where
  \<comment> \<open>a machine on which the dispatcher resolves the AVX2 kernel and hints change nothing\<close>
  "avx2_env = \<lparr>resolve_scanner = (\<lambda>al. ((AVX2, al), 32)), apply_hints = (\<lambda>context. context)\<rparr>"

section \<open>Alignment utilities\<close>

text \<open>
  C9: for each of the two strides, \<open>next_boundary_align\<close> gives the smallest multiple of the
  stride at or above the pointer and \<open>prev_boundary_align\<close> the largest multiple at or
  below it; for stride 1 both return the pointer.
\<close>

theorem boundary_align_nearest:
  "p \<le> next_boundary_align al p \<and> next_boundary_align al p mod alignment_stride al = 0
   \<and> (\<forall>q. p \<le> q \<and> q mod alignment_stride al = 0 \<longrightarrow> next_boundary_align al p \<le> q)
   \<and> prev_boundary_align al p \<le> p \<and> prev_boundary_align al p mod alignment_stride al = 0
   \<and> (\<forall>q. q \<le> p \<and> q mod alignment_stride al = 0 \<longrightarrow> q \<le> prev_boundary_align al p)
   \<and> next_boundary_align X1 p = p \<and> prev_boundary_align X1 p = p"
proof (cases al)
  case X1
  then show ?thesis by (simp add: next_boundary_align_def prev_boundary_align_def)
next
  case X16
  have m: "uintptr_t_of p mod 16 = p mod 16"
    unfolding uintptr_t_of_def by (simp add: mod_mod_cancel)
  have a: "p \<le> next_boundary_align X16 p"
    by (simp add: next_boundary_align_def m Let_def) presburger
  have b: "next_boundary_align X16 p mod 16 = 0"
    by (simp add: next_boundary_align_def m Let_def) presburger
  have c: "\<forall>q. p \<le> q \<and> q mod 16 = 0 \<longrightarrow> next_boundary_align X16 p \<le> q"
    by (simp add: next_boundary_align_def m Let_def) presburger
  have d: "prev_boundary_align X16 p \<le> p"
    by (simp add: prev_boundary_align_def m Let_def)
  have e: "prev_boundary_align X16 p mod 16 = 0"
    by (simp add: prev_boundary_align_def m Let_def)
  have f: "\<forall>q. q \<le> p \<and> q mod 16 = 0 \<longrightarrow> q \<le> prev_boundary_align X16 p"
    by (simp add: prev_boundary_align_def m Let_def) presburger
  from a b c d e f X16 show ?thesis
    by (simp add: next_boundary_align_def [of X1] prev_boundary_align_def [of X1])
qed

theorem boundary_align_nearest_witness:
  "next_boundary_align X16 17 = 32 \<and> prev_boundary_align X16 17 = 16
   \<and> next_boundary_align X16 17 \<le> 48 \<and> 0 \<le> prev_boundary_align X16 17
   \<and> next_boundary_align X1 17 = 17 \<and> prev_boundary_align X1 17 = 17"
  using boundary_align_nearest [of 17 X16]
  by (simp add: next_boundary_align_def prev_boundary_align_def uintptr_t_of_def)

section \<open>Resolving a relative address\<close>

lemma read_bytes_4:
  "read_bytes mem a 4 =
     (case mem a of None \<Rightarrow> Undefined | Some b0 \<Rightarrow>
      (case mem (a + 1) of None \<Rightarrow> Undefined | Some b1 \<Rightarrow>
       (case mem (a + 2) of None \<Rightarrow> Undefined | Some b2 \<Rightarrow>
        (case mem (a + 3) of None \<Rightarrow> Undefined | Some b3 \<Rightarrow> Returns [b0, b1, b2, b3]))))"
  by (simp add: numeral_eq_Suc add.assoc split: option.splits)

text \<open>
  C6: on a result that holds the address \<open>p\<close>, \<open>rel k\<close> is \<open>p\<close> plus the signed 32-bit
  value of the four bytes at \<open>p + k\<close>, plus \<open>k + 4\<close>; on a result without a value it is
  null, whatever the memory holds.
\<close>

theorem rel_resolves_displacement:
  "(has_result r \<longrightarrow> mem (get r + int k) = Some b0 \<longrightarrow> mem (get r + int k + 1) = Some b1
      \<longrightarrow> mem (get r + int k + 2) = Some b2 \<longrightarrow> mem (get r + int k + 3) = Some b3
      \<longrightarrow> rel bo mem r k = Returns (get r + sint (int32_of_bytes bo [b0, b1, b2, b3]) + int k + 4))
   \<and> (\<not> has_result r \<longrightarrow> rel bo mem r k = Returns nullptr)"
  by (simp add: rel_def read_rel_t_def get_def read_bytes_4)

theorem rel_resolves_displacement_witness:
  "rel LittleEndian (bytes_at 100 [0xE8, 0xFC, 0xFF, 0xFF, 0xFF]) \<lparr>result = 100\<rparr> 1 = Returns 101
   \<and> rel LittleEndian (bytes_at 100 [0xE8, 0xFC, 0xFF, 0xFF, 0xFF]) \<lparr>result = nullptr\<rparr> 1
       = Returns nullptr"
  using rel_resolves_displacement
    [of "\<lparr>result = 100\<rparr>" "bytes_at 100 [0xE8, 0xFC, 0xFF, 0xFF, 0xFF]" 1 "0xFC" "0xFF" "0xFF" "0xFF"
      LittleEndian]
    rel_resolves_displacement
    [of "\<lparr>result = nullptr\<rparr>" "bytes_at 100 [0xE8, 0xFC, 0xFF, 0xFF, 0xFF]" 1 0 0 0 0 LittleEndian]
  by (simp add: has_result_def get_def nullptr_def bytes_at_def int32_of_bytes_def)

section \<open>What the primitives and the scalar loops compute\<close>

lemma readable_mono: "readable mem lo hi \<Longrightarrow> lo \<le> lo' \<Longrightarrow> hi' \<le> hi \<Longrightarrow> readable mem lo' hi'"
  by (auto simp: readable_def)

lemma readable_at: "readable mem lo hi \<Longrightarrow> lo \<le> a \<Longrightarrow> a < hi \<Longrightarrow> \<exists>b. mem a = Some b"
  by (auto simp: readable_def)

lemma std_equal_matches:
  "readable mem a (a + int (length rest)) \<Longrightarrow> std_equal mem rest a = Returns (matches_at mem rest a)"
proof (induction rest arbitrary: a)
  case Nil
  then show ?case by simp
next
  case (Cons opt rest)
  from Cons.prems obtain b where b: "mem a = Some b"
    using readable_at [of mem a "a + int (length (opt # rest))" a] by auto
  have "readable mem (a + 1) (a + 1 + int (length rest))"
    using Cons.prems by (rule readable_mono) auto
  then have IH: "std_equal mem rest (a + 1) = Returns (matches_at mem rest (a + 1))"
    by (rule Cons.IH)
  show ?case
    using b IH by (cases opt) auto
qed

lemma std_find_first:
  "first \<le> lst \<Longrightarrow> readable mem first lst \<Longrightarrow>
   \<exists>j. std_find mem first lst v = Returns j \<and> first \<le> j \<and> j \<le> lst
       \<and> (j < lst \<longrightarrow> mem j = Some v) \<and> (\<forall>a. first \<le> a \<and> a < j \<longrightarrow> mem a \<noteq> Some v)"
proof (induction mem first lst v rule: std_find.induct)
  case (1 mem first lst v)
  show ?case
  proof (cases "first = lst")
    case True
    then show ?thesis by (subst std_find.simps) auto
  next
    case False
    with "1.prems" have lt: "first < lst" by simp
    then obtain b where b: "mem first = Some b"
      using readable_at [OF "1.prems"(2), of first] by auto
    show ?thesis
    proof (cases "b = v")
      case True
      with lt b show ?thesis by (auto simp: std_find.simps [of mem first lst v])
    next
      case neq: False
      have r: "readable mem (first + 1) lst"
        using "1.prems"(2) by (rule readable_mono) auto
      from lt have "\<not> lst < first" "first \<noteq> lst" by auto
      from "1.IH" [OF this b neq _ r] lt
      obtain j where j: "std_find mem (first + 1) lst v = Returns j" "first + 1 \<le> j" "j \<le> lst"
        "j < lst \<longrightarrow> mem j = Some v" "\<forall>a. first + 1 \<le> a \<and> a < j \<longrightarrow> mem a \<noteq> Some v"
        by auto
      have "std_find mem first lst v = Returns j"
        using lt b neq j(1) by (simp add: std_find.simps [of mem first lst v])
      moreover have "\<forall>a. first \<le> a \<and> a < j \<longrightarrow> mem a \<noteq> Some v"
      proof (intro allI impI)
        fix a assume a: "first \<le> a \<and> a < j"
        show "mem a \<noteq> Some v"
        proof (cases "a = first")
          case True with b neq show ?thesis by simp
        next
          case False with a j(5) show ?thesis by auto
        qed
      qed
      ultimately show ?thesis using j by auto
    qed
  qed
qed

lemma FastFirst_X1_loop_first:
  "i \<le> scanEnd \<Longrightarrow> readable mem i (scanEnd + int (length rest)) \<Longrightarrow>
   \<exists>r. FastFirst_X1_loop mem fb rest i scanEnd = Returns r \<and>
     ((r = \<lparr>result = nullptr\<rparr> \<and> (\<forall>p. i \<le> p \<and> p < scanEnd \<longrightarrow> \<not> matches_at mem (Some fb # rest) p))
      \<or> (i \<le> result r \<and> result r < scanEnd \<and> matches_at mem (Some fb # rest) (result r)
          \<and> (\<forall>p. i \<le> p \<and> p < result r \<longrightarrow> \<not> matches_at mem (Some fb # rest) p)))"
proof (induction mem fb rest i scanEnd rule: FastFirst_X1_loop.induct)
  case (1 mem fb rest i scanEnd)
  show ?case
  proof (cases "i = scanEnd")
    case True
    then show ?thesis by (subst FastFirst_X1_loop.simps) auto
  next
    case ne: False
    have rd: "readable mem i scanEnd"
      using "1.prems"(2) by (rule readable_mono) auto
    from std_find_first [OF "1.prems"(1) rd, of fb]
    obtain j where j: "std_find mem i scanEnd fb = Returns j" "i \<le> j" "j \<le> scanEnd"
      "j < scanEnd \<longrightarrow> mem j = Some fb" "\<forall>a. i \<le> a \<and> a < j \<longrightarrow> mem a \<noteq> Some fb"
      by blast
    have nomatch_before: "\<forall>p. i \<le> p \<and> p < j \<longrightarrow> \<not> matches_at mem (Some fb # rest) p"
      using j(5) by auto
    show ?thesis
    proof (cases "j = scanEnd")
      case True
      with ne j(1) nomatch_before show ?thesis
        by (simp add: FastFirst_X1_loop.simps [of mem fb rest i scanEnd])
    next
      case jne: False
      with j have jlt: "j < scanEnd" and mj: "mem j = Some fb" by auto
      have "readable mem (j + 1) (j + 1 + int (length rest))"
        using "1.prems"(2) by (rule readable_mono) (use j jlt in auto)
      then have eq: "std_equal mem rest (j + 1) = Returns (matches_at mem rest (j + 1))"
        by (rule std_equal_matches)
      show ?thesis
      proof (cases "matches_at mem rest (j + 1)")
        case True
        then have "FastFirst_X1_loop mem fb rest i scanEnd = Returns \<lparr>result = j\<rparr>"
          using ne j(1) jne eq by (simp add: FastFirst_X1_loop.simps [of mem fb rest i scanEnd])
        moreover have "matches_at mem (Some fb # rest) j"
          using True mj by simp
        ultimately show ?thesis using j(2) jlt nomatch_before by simp
      next
        case nm: False
        have step: "FastFirst_X1_loop mem fb rest i scanEnd = FastFirst_X1_loop mem fb rest (j + 1) scanEnd"
          using ne j(1) jne eq nm by (simp add: FastFirst_X1_loop.simps [of mem fb rest i scanEnd])
        have rd': "readable mem (j + 1) (scanEnd + int (length rest))"
          using "1.prems"(2) by (rule readable_mono) (use j in auto)
        have le': "j + 1 \<le> scanEnd" using jlt by simp
        from "1.IH" [OF ne j(1) jne eq nm le' rd']
        obtain r where r: "FastFirst_X1_loop mem fb rest (j + 1) scanEnd = Returns r"
          "(r = \<lparr>result = nullptr\<rparr> \<and> (\<forall>p. j + 1 \<le> p \<and> p < scanEnd \<longrightarrow> \<not> matches_at mem (Some fb # rest) p))
            \<or> (j + 1 \<le> result r \<and> result r < scanEnd \<and> matches_at mem (Some fb # rest) (result r)
              \<and> (\<forall>p. j + 1 \<le> p \<and> p < result r \<longrightarrow> \<not> matches_at mem (Some fb # rest) p))"
          by blast
        have nj: "\<not> matches_at mem (Some fb # rest) j" using nm by simp
        have upto: "\<And>p. i \<le> p \<Longrightarrow> p < j + 1 \<Longrightarrow> \<not> matches_at mem (Some fb # rest) p"
        proof -
          fix p assume "i \<le> p" "p < j + 1"
          then have "p < j \<or> p = j" by auto
          then show "\<not> matches_at mem (Some fb # rest) p"
            using nomatch_before nj \<open>i \<le> p\<close> by blast
        qed
        from r(2) show ?thesis
        proof
          assume a: "r = \<lparr>result = nullptr\<rparr> \<and> (\<forall>p. j + 1 \<le> p \<and> p < scanEnd \<longrightarrow> \<not> matches_at mem (Some fb # rest) p)"
          have "\<forall>p. i \<le> p \<and> p < scanEnd \<longrightarrow> \<not> matches_at mem (Some fb # rest) p"
          proof (intro allI impI)
            fix p assume p: "i \<le> p \<and> p < scanEnd"
            show "\<not> matches_at mem (Some fb # rest) p"
            proof (cases "p < j + 1")
              case True with p upto show ?thesis by blast
            next
              case False with p a show ?thesis by auto
            qed
          qed
          with a step r(1) show ?thesis by simp
        next
          assume a: "j + 1 \<le> result r \<and> result r < scanEnd \<and> matches_at mem (Some fb # rest) (result r)
              \<and> (\<forall>p. j + 1 \<le> p \<and> p < result r \<longrightarrow> \<not> matches_at mem (Some fb # rest) p)"
          have "\<forall>p. i \<le> p \<and> p < result r \<longrightarrow> \<not> matches_at mem (Some fb # rest) p"
          proof (intro allI impI)
            fix p assume p: "i \<le> p \<and> p < result r"
            show "\<not> matches_at mem (Some fb # rest) p"
            proof (cases "p < j + 1")
              case True with p upto show ?thesis by blast
            next
              case False with p a show ?thesis by auto
            qed
          qed
          moreover have "i \<le> result r" using a j(2) by linarith
          ultimately show ?thesis using a step r(1) by simp
        qed
      qed
    qed
  qed
qed


lemma FastFirst_X16_loop_first:
  "i \<le> scanEnd \<Longrightarrow> (scanEnd - i) mod 16 = 0 \<Longrightarrow> readable mem i (scanEnd + int (length rest)) \<Longrightarrow>
   \<exists>r. FastFirst_X16_loop mem fb rest i scanEnd = Returns r \<and>
     ((r = \<lparr>result = nullptr\<rparr>
        \<and> (\<forall>p. i \<le> p \<and> p < scanEnd \<and> (p - i) mod 16 = 0 \<longrightarrow> \<not> matches_at mem (Some fb # rest) p))
      \<or> (i \<le> result r \<and> result r < scanEnd \<and> (result r - i) mod 16 = 0
          \<and> matches_at mem (Some fb # rest) (result r)
          \<and> (\<forall>p. i \<le> p \<and> p < result r \<and> (p - i) mod 16 = 0 \<longrightarrow> \<not> matches_at mem (Some fb # rest) p)))"
proof (induction mem fb rest i scanEnd rule: FastFirst_X16_loop.induct)
  case (1 mem fb rest i scanEnd)
  show ?case
  proof (cases "i = scanEnd")
    case True
    then show ?thesis by (subst FastFirst_X16_loop.simps) auto
  next
    case ne: False
    with "1.prems"(1) have lt: "i < scanEnd" and nlt: "\<not> scanEnd < i" by auto
    obtain b where b: "mem i = Some b"
      using readable_at [OF "1.prems"(3), of i] lt by auto
    have "readable mem (i + 1) (i + 1 + int (length rest))"
      using "1.prems"(3) by (rule readable_mono) (use lt in auto)
    then have eq: "std_equal mem rest (i + 1) = Returns (matches_at mem rest (i + 1))"
      by (rule std_equal_matches)
    show ?thesis
    proof (cases "b = fb \<and> matches_at mem rest (i + 1)")
      case True
      then have "FastFirst_X16_loop mem fb rest i scanEnd = Returns \<lparr>result = i\<rparr>"
        using ne nlt b eq by (simp add: FastFirst_X16_loop.simps [of mem fb rest i scanEnd])
      moreover have "matches_at mem (Some fb # rest) i"
        using True b by simp
      moreover have "\<forall>p. i \<le> p \<and> p < i \<and> (p - i) mod 16 = 0 \<longrightarrow> \<not> matches_at mem (Some fb # rest) p"
        by linarith
      ultimately show ?thesis using lt by simp
    next
      case nm: False
      have step: "FastFirst_X16_loop mem fb rest i scanEnd = FastFirst_X16_loop mem fb rest (i + 16) scanEnd"
        using ne nlt b eq nm by (auto simp: FastFirst_X16_loop.simps [of mem fb rest i scanEnd])
      have ni: "\<not> matches_at mem (Some fb # rest) i"
        using nm b by auto
      have le': "i + 16 \<le> scanEnd"
        using lt "1.prems"(2) by presburger
      have md': "(scanEnd - (i + 16)) mod 16 = 0"
        using "1.prems"(2) by presburger
      have rd': "readable mem (i + 16) (scanEnd + int (length rest))"
        using "1.prems"(3) by (rule readable_mono) auto
      have "\<exists>r. FastFirst_X16_loop mem fb rest (i + 16) scanEnd = Returns r \<and>
        ((r = \<lparr>result = nullptr\<rparr>
           \<and> (\<forall>p. i + 16 \<le> p \<and> p < scanEnd \<and> (p - (i + 16)) mod 16 = 0
                  \<longrightarrow> \<not> matches_at mem (Some fb # rest) p))
         \<or> (i + 16 \<le> result r \<and> result r < scanEnd \<and> (result r - (i + 16)) mod 16 = 0
             \<and> matches_at mem (Some fb # rest) (result r)
             \<and> (\<forall>p. i + 16 \<le> p \<and> p < result r \<and> (p - (i + 16)) mod 16 = 0
                  \<longrightarrow> \<not> matches_at mem (Some fb # rest) p)))"
      proof (cases "b = fb")
        case True
        with nm have "\<not> matches_at mem rest (i + 1)" by simp
        from "1.IH"(1) [OF ne nlt b True eq this le' md' rd'] show ?thesis .
      next
        case False
        from "1.IH"(2) [OF ne nlt b False le' md' rd'] show ?thesis .
      qed
      then obtain r where rr: "FastFirst_X16_loop mem fb rest (i + 16) scanEnd = Returns r \<and>
        ((r = \<lparr>result = nullptr\<rparr>
           \<and> (\<forall>p. i + 16 \<le> p \<and> p < scanEnd \<and> (p - (i + 16)) mod 16 = 0
                  \<longrightarrow> \<not> matches_at mem (Some fb # rest) p))
         \<or> (i + 16 \<le> result r \<and> result r < scanEnd \<and> (result r - (i + 16)) mod 16 = 0
             \<and> matches_at mem (Some fb # rest) (result r)
             \<and> (\<forall>p. i + 16 \<le> p \<and> p < result r \<and> (p - (i + 16)) mod 16 = 0
                  \<longrightarrow> \<not> matches_at mem (Some fb # rest) p)))" ..
      note r = conjunct1 [OF rr] conjunct2 [OF rr]
      have cand: "\<And>p. i \<le> p \<Longrightarrow> (p - i) mod 16 = 0 \<Longrightarrow> p \<noteq> i
          \<Longrightarrow> i + 16 \<le> p \<and> (p - (i + 16)) mod 16 = 0"
        by presburger
      from r(2) show ?thesis
      proof
        assume a: "r = \<lparr>result = nullptr\<rparr>
           \<and> (\<forall>p. i + 16 \<le> p \<and> p < scanEnd \<and> (p - (i + 16)) mod 16 = 0
                  \<longrightarrow> \<not> matches_at mem (Some fb # rest) p)"
        have "\<forall>p. i \<le> p \<and> p < scanEnd \<and> (p - i) mod 16 = 0 \<longrightarrow> \<not> matches_at mem (Some fb # rest) p"
        proof (intro allI impI)
          fix p assume p: "i \<le> p \<and> p < scanEnd \<and> (p - i) mod 16 = 0"
          show "\<not> matches_at mem (Some fb # rest) p"
          proof (cases "p = i")
            case True with ni show ?thesis by simp
          next
            case False
            with p have c: "i + 16 \<le> p \<and> (p - (i + 16)) mod 16 = 0"
              by (intro cand) simp_all
            from a have "i + 16 \<le> p \<and> p < scanEnd \<and> (p - (i + 16)) mod 16 = 0
                \<longrightarrow> \<not> matches_at mem (Some fb # rest) p"
              by (elim conjE allE [of _ p])
            with c p show ?thesis by simp
          qed
        qed
        with a step r(1) show ?thesis by simp
      next
        assume a: "i + 16 \<le> result r \<and> result r < scanEnd \<and> (result r - (i + 16)) mod 16 = 0
             \<and> matches_at mem (Some fb # rest) (result r)
             \<and> (\<forall>p. i + 16 \<le> p \<and> p < result r \<and> (p - (i + 16)) mod 16 = 0
                  \<longrightarrow> \<not> matches_at mem (Some fb # rest) p)"
        have "\<forall>p. i \<le> p \<and> p < result r \<and> (p - i) mod 16 = 0 \<longrightarrow> \<not> matches_at mem (Some fb # rest) p"
        proof (intro allI impI)
          fix p assume p: "i \<le> p \<and> p < result r \<and> (p - i) mod 16 = 0"
          show "\<not> matches_at mem (Some fb # rest) p"
          proof (cases "p = i")
            case True with ni show ?thesis by simp
          next
            case False
            with p have c: "i + 16 \<le> p \<and> (p - (i + 16)) mod 16 = 0"
              by (intro cand) simp_all
            from a have "i + 16 \<le> p \<and> p < result r \<and> (p - (i + 16)) mod 16 = 0
                \<longrightarrow> \<not> matches_at mem (Some fb # rest) p"
              by (elim conjE allE [of _ p])
            with c p show ?thesis by simp
          qed
        qed
        moreover have "i \<le> result r" using a by linarith
        moreover have "(result r - i) mod 16 = 0"
        proof -
          from a have "(result r - (i + 16)) mod 16 = 0" by simp
          then show ?thesis by presburger
        qed
        ultimately show ?thesis using a step r(1) by simp
      qed
    qed
  qed
qed

lemma FastFirst_X16_loop_aligned:
  "i mod 16 = 0 \<Longrightarrow> FastFirst_X16_loop mem fb rest i scanEnd = Returns r \<Longrightarrow> result r mod 16 = 0"
proof (induction mem fb rest i scanEnd rule: FastFirst_X16_loop.induct)
  case (1 mem fb rest i scanEnd)
  have md': "(i + 16) mod 16 = 0" using "1.prems"(1) by presburger
  show ?case
  proof (cases "i = scanEnd \<or> scanEnd < i")
    case True
    with "1.prems"(2) show ?thesis
      by (auto simp: FastFirst_X16_loop.simps [of mem fb rest i scanEnd] nullptr_def split: if_splits)
  next
    case False
    then have ne: "i \<noteq> scanEnd" and nlt: "\<not> scanEnd < i" by auto
    from "1.prems"(2) ne nlt obtain b where b: "mem i = Some b"
      by (cases "mem i") (auto simp: FastFirst_X16_loop.simps [of mem fb rest i scanEnd])
    show ?thesis
    proof (cases "b = fb")
      case True
      from "1.prems"(2) ne nlt b True obtain m where m: "std_equal mem rest (i + 1) = Returns m"
        by (cases "std_equal mem rest (i + 1)")
           (auto simp: FastFirst_X16_loop.simps [of mem fb rest i scanEnd])
      show ?thesis
      proof (cases m)
        case True
        with "1.prems" ne nlt b \<open>b = fb\<close> m show ?thesis
          by (auto simp: FastFirst_X16_loop.simps [of mem fb rest i scanEnd])
      next
        case nm: False
        with "1.prems"(2) ne nlt b True m
        have "FastFirst_X16_loop mem fb rest (i + 16) scanEnd = Returns r"
          by (auto simp: FastFirst_X16_loop.simps [of mem fb rest i scanEnd])
        from "1.IH"(1) [OF ne nlt b True m nm md' this] show ?thesis .
      qed
    next
      case False
      with "1.prems"(2) ne nlt b
      have "FastFirst_X16_loop mem fb rest (i + 16) scanEnd = Returns r"
        by (auto simp: FastFirst_X16_loop.simps [of mem fb rest i scanEnd])
      from "1.IH"(2) [OF ne nlt b False md' this] show ?thesis .
    qed
  qed
qed

section \<open>Truncation, alignment and the scalar kernels\<close>

lemma truncate_offset_replicate:
  "replicate (truncate_offset sig) None @ drop (truncate_offset sig) sig = sig"
  by (induction sig) auto

lemma truncate_offset_head:
  "drop (truncate_offset sig) sig = elem # elems \<Longrightarrow> elem \<noteq> None"
  by (induction sig) (auto split: if_splits)

lemma truncate_offset_append:
  "truncate_offset (replicate n None @ Some fb # rest) = n"
  by (induction n) auto

lemma truncate_append:
  "truncate (replicate n None @ Some fb # rest) = (n, Some fb # rest)"
  by (simp add: truncate_def truncate_offset_append)

lemma matches_at_wildcards:
  "matches_at mem (replicate n None @ sig) q = matches_at mem sig (q + int n)"
proof (induction n arbitrary: q)
  case 0
  show ?case by simp
next
  case (Suc n)
  have "q + 1 + int n = q + int (Suc n)" by simp
  with Suc.IH [of "q + 1"] show ?case by simp
qed

lemma matches_at_nth:
  "matches_at mem sig p \<longleftrightarrow> (\<forall>k < length sig. sig ! k = None \<or> mem (p + int k) = sig ! k)"
proof (induction sig arbitrary: p)
  case Nil
  show ?case by simp
next
  case (Cons elem elems)
  have "(\<forall>k < length (elem # elems). (elem # elems) ! k = None \<or> mem (p + int k) = (elem # elems) ! k)
     \<longleftrightarrow> ((elem = None \<or> mem p = elem)
          \<and> (\<forall>k < length elems. elems ! k = None \<or> mem (p + 1 + int k) = elems ! k))"
    (is "?L \<longleftrightarrow> ?H \<and> ?T")
  proof
    assume l: ?L
    have ?H using l [rule_format, of 0] by simp
    moreover have ?T
    proof (intro allI impI)
      fix k assume "k < length elems"
      with l [rule_format, of "Suc k"] show "elems ! k = None \<or> mem (p + 1 + int k) = elems ! k"
        by (simp add: ac_simps)
    qed
    ultimately show "?H \<and> ?T" ..
  next
    assume r: "?H \<and> ?T"
    show ?L
    proof (intro allI impI)
      fix k assume k: "k < length (elem # elems)"
      show "(elem # elems) ! k = None \<or> mem (p + int k) = (elem # elems) ! k"
      proof (cases k)
        case 0
        with r show ?thesis by simp
      next
        case (Suc j)
        with k have "j < length elems" by simp
        with r have "elems ! j = None \<or> mem (p + 1 + int j) = elems ! j" by blast
        with Suc show ?thesis by (simp add: ac_simps)
      qed
    qed
  qed
  with Cons.IH [of "p + 1"] show ?case by simp
qed

lemma uintptr_t_of_mod_16: "uintptr_t_of p mod 16 = p mod 16"
  unfolding uintptr_t_of_def by (simp add: mod_mod_cancel)

lemma prev_boundary_align_le: "prev_boundary_align al p \<le> p"
  by (cases al) (simp_all add: prev_boundary_align_def uintptr_t_of_mod_16 Let_def)

lemma prev_boundary_align_mod: "prev_boundary_align al p mod alignment_stride al = 0"
  by (cases al) (simp_all add: prev_boundary_align_def uintptr_t_of_mod_16 Let_def)

lemma next_boundary_align_X16_ge: "p \<le> next_boundary_align X16 p"
  by (simp add: next_boundary_align_def uintptr_t_of_mod_16 Let_def) presburger

lemma next_boundary_align_X16_mod: "next_boundary_align X16 p mod 16 = 0"
  by (simp add: next_boundary_align_def uintptr_t_of_mod_16 Let_def) presburger

lemma next_boundary_align_X16_least: "p \<le> q \<and> q mod 16 = 0 \<longrightarrow> next_boundary_align X16 p \<le> q"
  by (simp add: next_boundary_align_def uintptr_t_of_mod_16 Let_def) presburger

lemma next_boundary_align_ge: "p \<le> next_boundary_align al p"
  by (cases al) (simp_all add: next_boundary_align_X16_ge, simp add: next_boundary_align_def)

lemma next_boundary_align_mod: "next_boundary_align al p mod alignment_stride al = 0"
  by (cases al) (simp_all add: next_boundary_align_X16_mod)

lemma next_boundary_align_least:
  assumes "p \<le> q" and "q mod alignment_stride al = 0"
  shows "next_boundary_align al p \<le> q"
proof (cases al)
  case X1
  with assms show ?thesis by (simp add: next_boundary_align_def)
next
  case X16
  with assms next_boundary_align_X16_least [of p q] show ?thesis by simp
qed

lemma first_match_unique:
  assumes "first_match cand hit r1" and "first_match cand hit r2"
  shows "r1 = r2"
proof -
  consider (nn) "r1 = \<lparr>result = nullptr\<rparr>" "r2 = \<lparr>result = nullptr\<rparr>"
    | (nf) "\<forall>p. cand p \<longrightarrow> \<not> hit p" "cand (result r2)" "hit (result r2)"
    | (fn) "\<forall>p. cand p \<longrightarrow> \<not> hit p" "cand (result r1)" "hit (result r1)"
    | (ff) "cand (result r1)" "hit (result r1)" "\<forall>p. cand p \<and> p < result r1 \<longrightarrow> \<not> hit p"
           "cand (result r2)" "hit (result r2)" "\<forall>p. cand p \<and> p < result r2 \<longrightarrow> \<not> hit p"
    using assms unfolding first_match_def by blast
  then show ?thesis
  proof cases
    case nn
    then show ?thesis by simp
  next
    case nf
    then show ?thesis by blast
  next
    case fn
    then show ?thesis by blast
  next
    case ff
    have "\<not> result r2 < result r1" using ff(3,4,5) by blast
    moreover have "\<not> result r1 < result r2" using ff(6,1,2) by blast
    ultimately have "result r1 = result r2" by linarith
    then show ?thesis by simp
  qed
qed

lemma find_pattern_FastFirst_X1_first:
  assumes sg: "signature context = Some fb # rest"
    and len: "pbegin + int (length (signature context)) \<le> pend"
    and rd: "readable mem pbegin pend"
  shows "\<exists>r. find_pattern_FastFirst_X1 mem pbegin pend context = Returns r
    \<and> first_match (scalar_candidate X1 pbegin pend (length (signature context)))
         (matches_at mem (signature context)) r"
proof -
  let ?scanEnd = "pend - int (length (signature context)) + 1"
  have le: "pbegin \<le> ?scanEnd" using len by simp
  have e: "?scanEnd + int (length rest) = pend" using sg by simp
  have rd': "readable mem pbegin (?scanEnd + int (length rest))"
    using rd by (simp only: e)
  from FastFirst_X1_loop_first [OF le rd', of fb]
  obtain r where r: "FastFirst_X1_loop mem fb rest pbegin ?scanEnd = Returns r \<and>
     ((r = \<lparr>result = nullptr\<rparr>
        \<and> (\<forall>p. pbegin \<le> p \<and> p < ?scanEnd \<longrightarrow> \<not> matches_at mem (Some fb # rest) p))
      \<or> (pbegin \<le> result r \<and> result r < ?scanEnd \<and> matches_at mem (Some fb # rest) (result r)
          \<and> (\<forall>p. pbegin \<le> p \<and> p < result r \<longrightarrow> \<not> matches_at mem (Some fb # rest) p)))" ..
  have k: "find_pattern_FastFirst_X1 mem pbegin pend context = Returns r"
    using r sg by (simp add: find_pattern_FastFirst_X1_def)
  have c: "\<And>p. scalar_candidate X1 pbegin pend (length (signature context)) p
      \<longleftrightarrow> pbegin \<le> p \<and> p < ?scanEnd"
    by (simp add: scalar_candidate_def prev_boundary_align_def)
  have "first_match (scalar_candidate X1 pbegin pend (length (signature context)))
         (matches_at mem (signature context)) r"
    using conjunct2 [OF r, folded sg] unfolding first_match_def c
    by (elim disjE conjE) simp_all
  with k show ?thesis by blast
qed

lemma scalar_candidate_X16:
  "scalar_candidate X16 pbegin pend len p \<longleftrightarrow>
     next_boundary_align X16 pbegin \<le> p \<and> p < prev_boundary_align X16 (pend - int len + 1)
       \<and> (p - next_boundary_align X16 pbegin) mod 16 = 0"
proof -
  have m: "next_boundary_align X16 pbegin mod 16 = 0" by (rule next_boundary_align_X16_mod)
  have g: "pbegin \<le> next_boundary_align X16 pbegin" by (rule next_boundary_align_X16_ge)
  have l: "pbegin \<le> p \<and> p mod 16 = 0 \<longrightarrow> next_boundary_align X16 pbegin \<le> p"
    by (rule next_boundary_align_X16_least)
  have d: "\<And>a b :: int. b mod 16 = 0 \<Longrightarrow> (a - b) mod 16 = 0 \<longleftrightarrow> a mod 16 = 0"
    by presburger
  show ?thesis
    unfolding scalar_candidate_def using g l d [OF m, of p] by auto
qed

lemma find_pattern_FastFirst_X16_first:
  assumes sg: "signature context = Some fb # rest"
    and len: "pbegin + int (length (signature context)) \<le> pend"
    and rd: "readable mem pbegin pend"
  shows "\<exists>r. find_pattern_FastFirst_X16 mem pbegin pend context = Returns r
    \<and> first_match (scalar_candidate X16 pbegin pend (length (signature context)))
         (matches_at mem (signature context)) r"
proof -
  let ?n = "length (signature context)"
  let ?sb = "next_boundary_align X16 pbegin"
  let ?se = "prev_boundary_align X16 (pend - int ?n + 1)"
  show ?thesis
  proof (cases "?sb \<ge> ?se")
    case True
    then have k: "find_pattern_FastFirst_X16 mem pbegin pend context = Returns \<lparr>result = nullptr\<rparr>"
      using sg by (simp add: find_pattern_FastFirst_X16_def)
    have "\<forall>p. scalar_candidate X16 pbegin pend ?n p \<longrightarrow> \<not> matches_at mem (signature context) p"
      using True unfolding scalar_candidate_X16 by auto
    then have "first_match (scalar_candidate X16 pbegin pend ?n) (matches_at mem (signature context))
        \<lparr>result = nullptr\<rparr>"
      by (simp add: first_match_def)
    with k show ?thesis by blast
  next
    case False
    then have le: "?sb \<le> ?se" by simp
    have m1: "?sb mod 16 = 0" by (rule next_boundary_align_X16_mod)
    have m2: "?se mod 16 = 0" using prev_boundary_align_mod [of X16] by simp
    have md: "(?se - ?sb) mod 16 = 0" using m1 m2 by presburger
    have "?se \<le> pend - int ?n + 1" by (rule prev_boundary_align_le)
    then have "?se + int (length rest) \<le> pend" using sg by simp
    with rd have rd': "readable mem ?sb (?se + int (length rest))"
      by (rule readable_mono [OF _ next_boundary_align_X16_ge])
    from FastFirst_X16_loop_first [OF le md rd', of fb]
    obtain r where r: "FastFirst_X16_loop mem fb rest ?sb ?se = Returns r \<and>
     ((r = \<lparr>result = nullptr\<rparr>
        \<and> (\<forall>p. ?sb \<le> p \<and> p < ?se \<and> (p - ?sb) mod 16 = 0 \<longrightarrow> \<not> matches_at mem (Some fb # rest) p))
      \<or> (?sb \<le> result r \<and> result r < ?se \<and> (result r - ?sb) mod 16 = 0
          \<and> matches_at mem (Some fb # rest) (result r)
          \<and> (\<forall>p. ?sb \<le> p \<and> p < result r \<and> (p - ?sb) mod 16 = 0
                \<longrightarrow> \<not> matches_at mem (Some fb # rest) p)))" ..
    have k: "find_pattern_FastFirst_X16 mem pbegin pend context = Returns r"
      using r sg False by (simp add: find_pattern_FastFirst_X16_def Let_def)
    have "first_match (scalar_candidate X16 pbegin pend ?n) (matches_at mem (signature context)) r"
      using conjunct2 [OF r, folded sg]
    proof (elim disjE conjE)
      assume "r = \<lparr>result = nullptr\<rparr>"
        and "\<forall>p. ?sb \<le> p \<and> p < ?se \<and> (p - ?sb) mod 16 = 0
               \<longrightarrow> \<not> matches_at mem (signature context) p"
      then show ?thesis
        unfolding first_match_def scalar_candidate_X16 by simp
    next
      assume "?sb \<le> result r" and "result r < ?se" and "(result r - ?sb) mod 16 = 0"
        and "matches_at mem (signature context) (result r)"
        and "\<forall>p. ?sb \<le> p \<and> p < result r \<and> (p - ?sb) mod 16 = 0
               \<longrightarrow> \<not> matches_at mem (signature context) p"
      then show ?thesis
        unfolding first_match_def scalar_candidate_X16 by simp
    qed
    with k show ?thesis by blast
  qed
qed

lemma find_pattern_kernel_FastFirst_first:
  assumes sg: "signature context = Some fb # rest"
    and len: "pbegin + int (length (signature context)) \<le> pend"
    and rd: "readable mem pbegin pend"
  shows "\<exists>r. find_pattern_kernel (FastFirst, al) mem pbegin pend context = Returns r
    \<and> first_match (scalar_candidate al pbegin pend (length (signature context)))
         (matches_at mem (signature context)) r"
proof (cases al)
  case X1
  with find_pattern_FastFirst_X1_first [OF assms] show ?thesis by simp
next
  case X16
  with find_pattern_FastFirst_X16_first [OF assms] show ?thesis by simp
qed

lemma size_t_of_small: "0 \<le> d \<Longrightarrow> d < 2 ^ 64 \<Longrightarrow> size_t_of d = nat d"
  by (simp add: size_t_of_def)

lemma first_matchI_null:
  "(\<And>p. cand p \<Longrightarrow> \<not> hit p) \<Longrightarrow> first_match cand hit \<lparr>result = nullptr\<rparr>"
  by (simp add: first_match_def)

lemma first_matchI_found:
  "cand a \<Longrightarrow> hit a \<Longrightarrow> (\<And>p. cand p \<Longrightarrow> p < a \<Longrightarrow> \<not> hit p)
   \<Longrightarrow> first_match cand hit \<lparr>result = a\<rparr>"
  by (simp add: first_match_def)

lemma scalar_candidate_in_range:
  assumes "scalar_candidate al pbegin pend len p"
  shows "pbegin \<le> p \<and> p + int len \<le> pend \<and> p mod alignment_stride al = 0"
proof -
  have "prev_boundary_align al (pend - int len + 1) \<le> pend - int len + 1"
    by (rule prev_boundary_align_le)
  with assms show ?thesis by (simp add: scalar_candidate_def)
qed

lemma scalar_candidate_below:
  assumes "scalar_candidate al pbegin pend len a" and "pbegin \<le> p" and "p < a"
    and "p mod alignment_stride al = 0"
  shows "scalar_candidate al pbegin pend len p"
  using assms by (simp add: scalar_candidate_def)

lemma find_pattern_scalar_first:
  assumes pos: "0 < beginIt" and bound: "endIt < 2 ^ 64" and rd: "readable mem beginIt endIt"
    and sc: "scanner (create ce env al (Some fb # rest) hnts) = (FastFirst, al)"
    and sg: "signature (create ce env al (Some fb # rest) hnts) = Some fb # rest"
  shows "\<exists>r. find_pattern ce env al mem beginIt endIt (replicate n None @ Some fb # rest) hnts
        = Returns r
    \<and> first_match
         (\<lambda>q. scalar_candidate al (beginIt + int n) endIt (Suc (length rest)) (q + int n))
         (matches_at mem (replicate n None @ Some fb # rest)) r"
proof -
  let ?t = "Some fb # rest"
  let ?sig = "replicate n None @ ?t"
  let ?pb = "beginIt + int n"
  let ?ctx = "create ce env al ?t hnts"
  let ?cand = "\<lambda>q. scalar_candidate al ?pb endIt (Suc (length rest)) (q + int n)"
  have tr: "truncate ?sig = (n, ?t)" by (rule truncate_append)
  have hit: "\<And>q. matches_at mem ?sig q = matches_at mem ?t (q + int n)"
    by (rule matches_at_wildcards)
  show ?thesis
  proof (cases "?pb \<ge> endIt \<or> length ?t > size_t_of (endIt - ?pb)")
    case True
    then have res: "find_pattern ce env al mem beginIt endIt ?sig hnts = Returns \<lparr>result = nullptr\<rparr>"
      by (simp add: find_pattern_def tr)
    have "\<And>q. ?cand q \<Longrightarrow> \<not> matches_at mem ?sig q"
    proof -
      fix q assume "?cand q"
      then have c: "?pb \<le> q + int n \<and> q + int n + int (Suc (length rest)) \<le> endIt"
        using scalar_candidate_in_range by blast
      then have lt: "?pb < endIt" by simp
      have "0 \<le> endIt - ?pb" "endIt - ?pb < 2 ^ 64" using lt pos bound by simp_all
      then have "size_t_of (endIt - ?pb) = nat (endIt - ?pb)" by (rule size_t_of_small)
      with lt True have "nat (endIt - ?pb) < Suc (length rest)" by simp
      with c show "\<not> matches_at mem ?sig q" by linarith
    qed
    then have "first_match ?cand (matches_at mem ?sig) \<lparr>result = nullptr\<rparr>"
      by (rule first_matchI_null)
    with res show ?thesis by blast
  next
    case False
    then have lt: "?pb < endIt" and sz: "length ?t \<le> size_t_of (endIt - ?pb)" by simp_all
    have "0 \<le> endIt - ?pb" "endIt - ?pb < 2 ^ 64" using lt pos bound by simp_all
    then have "size_t_of (endIt - ?pb) = nat (endIt - ?pb)" by (rule size_t_of_small)
    with sz have len: "?pb + int (length (signature ?ctx)) \<le> endIt"
      unfolding sg by simp
    have rd': "readable mem ?pb endIt"
      using rd by (rule readable_mono) simp_all
    from find_pattern_kernel_FastFirst_first [OF sg len rd', of al]
    obtain k where k: "find_pattern_kernel (FastFirst, al) mem ?pb endIt ?ctx = Returns k
      \<and> first_match (scalar_candidate al ?pb endIt (length (signature ?ctx)))
           (matches_at mem (signature ?ctx)) k" ..
    then have sk: "scan ?ctx mem ?pb endIt = Returns k"
      by (simp add: scan_def sc)
    have fm: "first_match (scalar_candidate al ?pb endIt (Suc (length rest))) (matches_at mem ?t) k"
      using conjunct2 [OF k] unfolding sg by simp
    have res: "find_pattern ce env al mem beginIt endIt ?sig hnts
        = Returns (if has_result k then \<lparr>result = get k - int n\<rparr> else \<lparr>result = nullptr\<rparr>)"
      using False sk by (simp add: find_pattern_def tr)
    from fm show ?thesis
      unfolding first_match_def [of "scalar_candidate al ?pb endIt (Suc (length rest))"]
    proof (elim disjE conjE)
      assume kn: "k = \<lparr>result = nullptr\<rparr>"
        and no: "\<forall>p. scalar_candidate al ?pb endIt (Suc (length rest)) p \<longrightarrow> \<not> matches_at mem ?t p"
      from kn res have "find_pattern ce env al mem beginIt endIt ?sig hnts = Returns \<lparr>result = nullptr\<rparr>"
        by (simp add: has_result_def)
      moreover have "first_match ?cand (matches_at mem ?sig) \<lparr>result = nullptr\<rparr>"
        by (rule first_matchI_null) (use no hit in simp)
      ultimately show ?thesis by blast
    next
      assume c: "scalar_candidate al ?pb endIt (Suc (length rest)) (result k)"
        and h: "matches_at mem ?t (result k)"
        and mn: "\<forall>p. scalar_candidate al ?pb endIt (Suc (length rest)) p \<and> p < result k
                  \<longrightarrow> \<not> matches_at mem ?t p"
      from c have "?pb \<le> result k" by (simp add: scalar_candidate_def)
      with pos have "has_result k" by (simp add: has_result_def nullptr_def)
      with res have "find_pattern ce env al mem beginIt endIt ?sig hnts
          = Returns \<lparr>result = result k - int n\<rparr>"
        by (simp add: get_def)
      moreover have "first_match ?cand (matches_at mem ?sig) \<lparr>result = result k - int n\<rparr>"
      proof (rule first_matchI_found)
        show "?cand (result k - int n)" using c by simp
        show "matches_at mem ?sig (result k - int n)" using h hit by simp
      next
        fix p assume "?cand p" and "p < result k - int n"
        then have "scalar_candidate al ?pb endIt (Suc (length rest)) (p + int n) \<and> p + int n < result k"
          by simp
        with mn have "\<not> matches_at mem ?t (p + int n)" by blast
        then show "\<not> matches_at mem ?sig p" using hit by simp
      qed
      ultimately show ?thesis by blast
    qed
  qed
qed

section \<open>Ranges that find-first rejects\<close>

text \<open>
  C5: when \<open>begin > end\<close>, or when the range that is left after \<open>begin\<close> has been advanced by
  the number of leading wildcards is shorter than the truncated signature, find-first returns
  null. This holds for every memory, also one in which no address is readable, and for every
  dispatcher: the check comes before the context is built and before any byte is read.
\<close>

theorem find_pattern_rejects_short_range:
  "endIt < beginIt
     \<or> endIt - (beginIt + int (fst (truncate sig))) < int (length (snd (truncate sig)))
   \<Longrightarrow> find_pattern consteval env al mem beginIt endIt sig hnts = Returns \<lparr>result = nullptr\<rparr>"
proof -
  assume h: "endIt < beginIt
     \<or> endIt - (beginIt + int (fst (truncate sig))) < int (length (snd (truncate sig)))"
  obtain offset trunc where t: "truncate sig = (offset, trunc)"
    by (cases "truncate sig")
  show ?thesis
  proof (cases "beginIt + int offset \<ge> endIt")
    case True
    then show ?thesis by (simp add: find_pattern_def t)
  next
    case False
    with h t have d: "endIt - (beginIt + int offset) < int (length trunc)"
      by auto
    have "(endIt - (beginIt + int offset)) mod 2 ^ 64 \<le> endIt - (beginIt + int offset)"
      using False by (intro zmod_le_nonneg_dividend) simp
    with d have "size_t_of (endIt - (beginIt + int offset)) < length trunc"
      by (simp add: size_t_of_def)
    then show ?thesis by (simp add: find_pattern_def t)
  qed
qed

theorem find_pattern_rejects_short_range_witness:
  "find_pattern False scalar_env X1 (bytes_at 100 []) 100 101 [Some 1, Some 2] scan_hint_none
     = Returns \<lparr>result = nullptr\<rparr>
   \<and> find_pattern False scalar_env X16 (bytes_at 100 []) 101 100 [Some 1] scan_hint_none
     = Returns \<lparr>result = nullptr\<rparr>"
  using find_pattern_rejects_short_range
      [of 101 100 "[Some 1, Some 2]" False scalar_env X1 "bytes_at 100 []" scan_hint_none]
    find_pattern_rejects_short_range
      [of 100 101 "[Some 1]" False scalar_env X16 "bytes_at 100 []" scan_hint_none]
  by (simp add: truncate_def)

section \<open>The candidates of the stride-16 scalar kernel\<close>

text \<open>
  C3: the stride-16 scalar kernel should examine every 16-aligned position of
  \<open>[begin, end - len + 1)\<close>. The kernel rounds the exclusive bound \<open>end - len + 1\<close> down
  with \<open>prev_boundary_align\<close>, so when that bound is not a multiple of 16 the last aligned
  position is left out. On the 17 bytes at \<open>[16, 33)\<close> with the signature \<open>AB\<close> and the
  byte \<open>AB\<close> at 32, the position 32 is 16-aligned, lies in \<open>[16, 33)\<close> and matches, and the
  kernel, and with it find-first, returns null.
\<close>

theorem FastFirst_X16_skips_last_candidate:
  "find_pattern_FastFirst_X16 (bytes_at 16 (replicate 16 0 @ [0xAB])) 16 33
     (create False scalar_env X16 [Some 0xAB] scan_hint_none) = Returns \<lparr>result = nullptr\<rparr>
   \<and> find_pattern False scalar_env X16 (bytes_at 16 (replicate 16 0 @ [0xAB])) 16 33
         [Some 0xAB] scan_hint_none = Returns \<lparr>result = nullptr\<rparr>
   \<and> matches_at (bytes_at 16 (replicate 16 0 @ [0xAB])) [Some 0xAB] 32
   \<and> next_boundary_align X16 16 \<le> 32 \<and> (32 - next_boundary_align X16 16) mod 16 = 0
   \<and> 32 < 33 - int (length [Some (0xAB :: byte)]) + 1"
  by (simp add: find_pattern_def truncate_def scan_def size_t_of_def has_result_def nullptr_def
      find_pattern_FastFirst_X16_def create_def scalar_env_def next_boundary_align_def
      prev_boundary_align_def uintptr_t_of_def FastFirst_X16_loop.simps bytes_at_def nth_append)

text \<open>
  The same rounding leaves a range of fewer than \<open>16 + len - 1\<close> bytes without any candidate.
  On the four bytes \<open>AB AB AB AB\<close> at the aligned address 4096 the signature \<open>AB AB\<close>
  matches at 4096, and the stride-16 find-all writes nothing.
\<close>

lemma stride16_overlapping_scenario:
  "find_all_pattern_bounded False scalar_env X16 (bytes_at 4096 [0xAB, 0xAB, 0xAB, 0xAB]) 4096 4100
       0 8 [Some 0xAB, Some 0xAB] scan_hint_none = Returns (4100, 0, [])
   \<and> matches_at (bytes_at 4096 [0xAB, 0xAB, 0xAB, 0xAB]) [Some 0xAB, Some 0xAB] 4096
   \<and> 4096 mod alignment_stride X16 = 0"
  by (simp add: find_all_pattern_bounded_def find_all_bounded_loop.simps truncate_def create_def
        scalar_env_def scan_def find_pattern_FastFirst_X16_def next_boundary_align_def
        prev_boundary_align_def uintptr_t_of_def bytes_at_def
        size_t_of_def has_result_def get_def nullptr_def)

section \<open>The cursor of find-all\<close>

text \<open>
  C2: after a hit at \<open>p\<close> find-all should write \<open>p - offset\<close> and go on from \<open>p + stride\<close>,
  so that every matching position is written once. The loop sets its cursor to
  \<open>addr + stride\<close> with \<open>addr = p - offset\<close>, although the cursor counts in the coordinates
  of the truncated signature. With one leading wildcard and stride 1 the cursor does not move:
  on the bytes \<open>00 AB\<close> at \<open>[100, 102)\<close> and the signature \<open>? AB\<close>, whose only match is at
  100, an output range of three places is filled with the address 100 three times.
\<close>

theorem find_all_bounded_repeats_hit:
  "find_all_pattern_bounded True scalar_env X1 (bytes_at 100 [0x00, 0xAB]) 100 102 0 3
     [None, Some 0xAB] scan_hint_none
   = Returns (100, 3, [\<lparr>result = 100\<rparr>, \<lparr>result = 100\<rparr>, \<lparr>result = 100\<rparr>])"
  by (simp add: find_all_pattern_bounded_def truncate_def create_def Single_def scalar_env_def
      find_all_bounded_loop.simps scan_def find_pattern_FastFirst_X1_def FastFirst_X1_loop.simps
      std_find.simps bytes_at_def size_t_of_def has_result_def get_def nullptr_def)

lemma scan_finds_same_hit:
  "scan (create True scalar_env X1 [Some 0xAB] scan_hint_none) (bytes_at 100 [0x00, 0xAB]) 101 102
     = Returns \<lparr>result = 101\<rparr>"
  by (simp add: create_def Single_def scalar_env_def scan_def find_pattern_FastFirst_X1_def
      FastFirst_X1_loop.simps std_find.simps bytes_at_def)

lemma find_all_counted_loop_stuck:
  "find_all_counted_loop fuel (create True scalar_env X1 [Some 0xAB] scan_hint_none)
     (bytes_at 100 [0x00, 0xAB]) 101 102 (Suc 0) 1 (Suc 0) 101 written matches = None"
proof (induction fuel arbitrary: written matches)
  case 0
  show ?case by simp
next
  case (Suc fuel)
  show ?case
    by (simp add: scan_finds_same_hit size_t_of_def has_result_def get_def nullptr_def Suc.IH)
qed

text \<open>
  C10: the loop of the counted find-all should be left on every input. On the input above the
  cursor stays at 101 and every round finds the hit at 101 again: whatever the fuel, the loop
  is not left, and each round appends the address 100 to the output once more.
\<close>

theorem find_all_counted_never_returns:
  "find_all_pattern_counted fuel True scalar_env X1 (bytes_at 100 [0x00, 0xAB]) 100 102
     [None, Some 0xAB] scan_hint_none = None"
  by (simp add: find_all_pattern_counted_def truncate_def find_all_counted_loop_stuck)

section \<open>Find-first returns the lowest match\<close>

lemma signature_invariants_shape:
  assumes "signature_invariants sig"
  shows "\<exists>fb rest. sig = replicate (truncate_offset sig) None @ Some fb # rest"
proof -
  from assms obtain elem elems where d: "drop (truncate_offset sig) sig = elem # elems"
    by (auto simp: signature_invariants_def truncate_def Let_def split: list.splits)
  then have "elem \<noteq> None" by (rule truncate_offset_head)
  then obtain fb where "elem = Some fb" by auto
  with d truncate_offset_replicate [of sig] show ?thesis by metis
qed

lemma scalar_kernel_selected_consteval: "scalar_kernel_selected True env al trunc hnts"
  by (simp add: scalar_kernel_selected_def create_def Single_def)

lemma readable_bytes_at: "readable (bytes_at base bs) base (base + int (length bs))"
  by (simp add: readable_def bytes_at_def)

text \<open>
  What find-first computes with the scalar kernels, on a readable range and a signature that
  satisfies its invariants. With alignment 1 the result is the lowest position of the range at
  which every element of the signature is a wildcard or equals the byte at its place, and null
  when there is none. With alignment 16 the kernel steps over the addresses of the first
  concrete element: a result that is not null is the lowest matching position \<open>p\<close> of the
  range for which \<open>p + offset\<close> is a multiple of 16, \<open>offset\<close> being the number of leading
  wildcards.
\<close>

lemma find_pattern_lowest_match:
  assumes pos: "0 < beginIt" and bound: "endIt < 2 ^ 64" and rd: "readable mem beginIt endIt"
    and inv: "signature_invariants sig"
    and sel: "scalar_kernel_selected consteval env al (snd (truncate sig)) hnts"
  shows "\<exists>r. find_pattern consteval env al mem beginIt endIt sig hnts = Returns r
     \<and> (has_result r \<longrightarrow>
           in_range beginIt endIt sig (get r) \<and> admissible al sig (get r) \<and> matches_at mem sig (get r)
           \<and> (\<forall>q. in_range beginIt endIt sig q \<and> admissible al sig q \<and> q < get r
                 \<longrightarrow> \<not> matches_at mem sig q))
     \<and> ((\<forall>q. in_range beginIt endIt sig q \<and> admissible al sig q \<longrightarrow> \<not> matches_at mem sig q)
           \<longrightarrow> \<not> has_result r)
     \<and> (al = X1 \<and> \<not> has_result r
           \<longrightarrow> (\<forall>q. in_range beginIt endIt sig q \<longrightarrow> \<not> matches_at mem sig q))"
proof -
  from signature_invariants_shape [OF inv] obtain fb rest
    where shape: "sig = replicate (truncate_offset sig) None @ Some fb # rest" by blast
  define n where "n = truncate_offset sig"
  have sig: "sig = replicate n None @ Some fb # rest"
    using shape n_def by simp
  have tr: "snd (truncate sig) = Some fb # rest"
    by (subst sig) (simp add: truncate_append)
  have len: "int (length sig) = int n + int (Suc (length rest))"
    by (subst sig) simp
  let ?cand = "\<lambda>q. scalar_candidate al (beginIt + int n) endIt (Suc (length rest)) (q + int n)"
  from sel tr have sc: "scanner (create consteval env al (Some fb # rest) hnts) = (FastFirst, al)"
    and sg: "signature (create consteval env al (Some fb # rest) hnts) = Some fb # rest"
    by (simp_all add: scalar_kernel_selected_def)
  from find_pattern_scalar_first [OF pos bound rd sc sg, of n] sig
  obtain r where res: "find_pattern consteval env al mem beginIt endIt sig hnts = Returns r"
    and fm: "first_match ?cand (matches_at mem sig) r"
    by auto
  have cand_range: "\<And>q. ?cand q \<Longrightarrow> in_range beginIt endIt sig q \<and> admissible al sig q"
  proof -
    fix q assume "?cand q"
    from scalar_candidate_in_range [OF this]
    show "in_range beginIt endIt sig q \<and> admissible al sig q"
      by (simp add: in_range_def admissible_def len n_def)
  qed
  have below: "\<And>a q. ?cand a \<Longrightarrow> in_range beginIt endIt sig q \<Longrightarrow> admissible al sig q \<Longrightarrow> q < a
      \<Longrightarrow> ?cand q"
  proof -
    fix a q assume a: "?cand a" and "in_range beginIt endIt sig q" "admissible al sig q" "q < a"
    then have "beginIt + int n \<le> q + int n" "q + int n < a + int n"
      "(q + int n) mod alignment_stride al = 0"
      by (simp_all add: in_range_def admissible_def n_def)
    with a show "?cand q" by (rule scalar_candidate_below)
  qed
  have x1: "\<And>q. al = X1 \<Longrightarrow> in_range beginIt endIt sig q \<Longrightarrow> ?cand q"
    by (simp add: scalar_candidate_def in_range_def prev_boundary_align_def len)
  have pos_cand: "\<And>a. ?cand a \<Longrightarrow> a \<noteq> nullptr"
  proof -
    fix a assume "?cand a"
    then have "beginIt \<le> a" by (simp add: scalar_candidate_def)
    with pos show "a \<noteq> nullptr" by (simp add: nullptr_def)
  qed
  from fm have "(has_result r \<longrightarrow>
           in_range beginIt endIt sig (get r) \<and> admissible al sig (get r) \<and> matches_at mem sig (get r)
           \<and> (\<forall>q. in_range beginIt endIt sig q \<and> admissible al sig q \<and> q < get r
                 \<longrightarrow> \<not> matches_at mem sig q))
     \<and> ((\<forall>q. in_range beginIt endIt sig q \<and> admissible al sig q \<longrightarrow> \<not> matches_at mem sig q)
           \<longrightarrow> \<not> has_result r)
     \<and> (al = X1 \<and> \<not> has_result r
           \<longrightarrow> (\<forall>q. in_range beginIt endIt sig q \<longrightarrow> \<not> matches_at mem sig q))"
    unfolding first_match_def
  proof (elim disjE conjE)
    assume rn: "r = \<lparr>result = nullptr\<rparr>" and no: "\<forall>p. ?cand p \<longrightarrow> \<not> matches_at mem sig p"
    from rn have nh: "\<not> has_result r" by (simp add: has_result_def)
    have "\<forall>q. al = X1 \<and> in_range beginIt endIt sig q \<longrightarrow> \<not> matches_at mem sig q"
      using no x1 by blast
    with nh show ?thesis by blast
  next
    assume c: "?cand (result r)" and h: "matches_at mem sig (result r)"
      and mn: "\<forall>p. ?cand p \<and> p < result r \<longrightarrow> \<not> matches_at mem sig p"
    from pos_cand [OF c] have hr: "has_result r" by (simp add: has_result_def)
    have g: "get r = result r" by (simp add: get_def)
    have m: "\<forall>q. in_range beginIt endIt sig q \<and> admissible al sig q \<and> q < result r
                 \<longrightarrow> \<not> matches_at mem sig q"
      using below [OF c] mn by blast
    from cand_range [OF c] h m hr show ?thesis
      unfolding g by blast
  qed
  with res show ?thesis by blast
qed

lemma find_pattern_lowest_match_example:
  "0 < (100 :: int) \<and> (104 :: int) < 2 ^ 64
   \<and> readable (bytes_at 100 [0x11, 0x22, 0x33, 0x44]) 100 104
   \<and> signature_invariants [None, Some 0x33]
   \<and> scalar_kernel_selected True scalar_env X1 (snd (truncate [None, Some 0x33])) scan_hint_none
   \<and> find_pattern True scalar_env X1 (bytes_at 100 [0x11, 0x22, 0x33, 0x44]) 100 104
         [None, Some 0x33] scan_hint_none = Returns \<lparr>result = 101\<rparr>
   \<and> matches_at (bytes_at 100 [0x11, 0x22, 0x33, 0x44]) [None, Some 0x33] 101
   \<and> \<not> matches_at (bytes_at 100 [0x11, 0x22, 0x33, 0x44]) [None, Some 0x33] 100
   \<and> readable (bytes_at 16 ([0x00, 0xAB] @ replicate 14 0 @ [0xAB] @ replicate 15 0)) 16 48
   \<and> scalar_kernel_selected False scalar_env X16 (snd (truncate [None, Some 0xAB])) scan_hint_none
   \<and> find_pattern False scalar_env X16
         (bytes_at 16 ([0x00, 0xAB] @ replicate 14 0 @ [0xAB] @ replicate 15 0)) 16 48
         [None, Some 0xAB] scan_hint_none = Returns \<lparr>result = 31\<rparr>
   \<and> admissible X16 [None, Some 0xAB] 31
   \<and> matches_at (bytes_at 16 ([0x00, 0xAB] @ replicate 14 0 @ [0xAB] @ replicate 15 0))
         [None, Some 0xAB] 31"
proof -
  let ?mem = "bytes_at 100 [0x11, 0x22, 0x33, 0x44]"
  let ?sig = "[None, Some (0x33 :: byte)]"
  have h1: "0 < (100 :: int)" and h2: "(104 :: int) < 2 ^ 64" by simp_all
  have h3: "readable ?mem 100 104"
    using readable_bytes_at [of 100 "[0x11, 0x22, 0x33, 0x44]"] by simp
  have h4: "signature_invariants ?sig"
    by (simp add: signature_invariants_def truncate_def)
  have h5: "scalar_kernel_selected True scalar_env X1 (snd (truncate ?sig)) scan_hint_none"
    by (rule scalar_kernel_selected_consteval)
  have ev: "find_pattern True scalar_env X1 ?mem 100 104 ?sig scan_hint_none = Returns \<lparr>result = 101\<rparr>"
    by (simp add: find_pattern_def truncate_def create_def Single_def scan_def
        find_pattern_FastFirst_X1_def FastFirst_X1_loop.simps std_find.simps bytes_at_def
        size_t_of_def has_result_def get_def nullptr_def)
  from find_pattern_lowest_match [OF h1 h2 h3 h4 h5]
  obtain r where r: "find_pattern True scalar_env X1 ?mem 100 104 ?sig scan_hint_none = Returns r"
    and c: "has_result r \<longrightarrow>
           in_range 100 104 ?sig (get r) \<and> admissible X1 ?sig (get r) \<and> matches_at ?mem ?sig (get r)
           \<and> (\<forall>q. in_range 100 104 ?sig q \<and> admissible X1 ?sig q \<and> q < get r
                 \<longrightarrow> \<not> matches_at ?mem ?sig q)"
    by blast
  from r ev have "r = \<lparr>result = 101\<rparr>" by simp
  then have "has_result r" and "get r = 101"
    by (simp_all add: has_result_def get_def nullptr_def)
  with c have m: "matches_at ?mem ?sig 101"
    and l: "\<forall>q. in_range 100 104 ?sig q \<and> admissible X1 ?sig q \<and> q < 101 \<longrightarrow> \<not> matches_at ?mem ?sig q"
    by simp_all
  have "in_range 100 104 ?sig 100 \<and> admissible X1 ?sig 100 \<and> (100 :: int) < 101"
    by (simp add: in_range_def admissible_def)
  with l have n: "\<not> matches_at ?mem ?sig 100" by blast
  let ?mem16 = "bytes_at 16 ([0x00, 0xAB] @ replicate 14 0 @ [0xAB] @ replicate 15 0)"
  let ?sig16 = "[None, Some (0xAB :: byte)]"
  have g1: "0 < (16 :: int)" and g2: "(48 :: int) < 2 ^ 64" by simp_all
  have g3: "readable ?mem16 16 48"
    using readable_bytes_at [of 16 "[0x00, 0xAB] @ replicate 14 0 @ [0xAB] @ replicate 15 0"]
    by simp
  have g4: "signature_invariants ?sig16"
    by (simp add: signature_invariants_def truncate_def)
  have g5: "scalar_kernel_selected False scalar_env X16 (snd (truncate ?sig16)) scan_hint_none"
    by (simp add: scalar_kernel_selected_def create_def scalar_env_def)
  have ev16: "find_pattern False scalar_env X16 ?mem16 16 48 ?sig16 scan_hint_none
      = Returns \<lparr>result = 31\<rparr>"
    by (simp add: find_pattern_def truncate_def create_def scalar_env_def scan_def
        find_pattern_FastFirst_X16_def FastFirst_X16_loop.simps next_boundary_align_def
        prev_boundary_align_def uintptr_t_of_def bytes_at_def nth_append
        size_t_of_def has_result_def get_def nullptr_def)
  from find_pattern_lowest_match [OF g1 g2 g3 g4 g5]
  obtain r16 where r16: "find_pattern False scalar_env X16 ?mem16 16 48 ?sig16 scan_hint_none
      = Returns r16"
    and c16: "has_result r16 \<longrightarrow>
           in_range 16 48 ?sig16 (get r16) \<and> admissible X16 ?sig16 (get r16)
           \<and> matches_at ?mem16 ?sig16 (get r16)
           \<and> (\<forall>q. in_range 16 48 ?sig16 q \<and> admissible X16 ?sig16 q \<and> q < get r16
                 \<longrightarrow> \<not> matches_at ?mem16 ?sig16 q)"
    by blast
  from r16 ev16 have "r16 = \<lparr>result = 31\<rparr>" by simp
  then have "has_result r16" and "get r16 = 31"
    by (simp_all add: has_result_def get_def nullptr_def)
  with c16 have a16: "admissible X16 ?sig16 31" and m16: "matches_at ?mem16 ?sig16 31"
    by simp_all
  from h1 h2 h3 h4 h5 ev m n g3 g5 ev16 a16 m16 show ?thesis by blast
qed

text \<open>
  C1: with alignment 16 find-first should return the lowest position of the range that is a
  multiple of 16 and at which the signature matches, and null only when there is none. It does
  not, in two ways. On the four bytes \<open>AB AB AB AB\<close> at \<open>[4096, 4100)\<close> the signature
  \<open>AB AB\<close> matches at 4096, a multiple of 16, and find-first returns null: the kernel rounds
  its exclusive bound down and is left without a candidate. On the 32 bytes at \<open>[16, 48)\<close>
  with \<open>AB\<close> at 17 and at 32 the signature \<open>? AB\<close> matches at 16, a multiple of 16, and
  find-first returns 31: the kernel aligns the hit of the truncated signature, 32, and the
  number of leading wildcards is subtracted from it afterwards.
\<close>

theorem find_pattern_X16_misses_lowest_match:
  "find_pattern False scalar_env X16 (bytes_at 4096 [0xAB, 0xAB, 0xAB, 0xAB]) 4096 4100
       [Some 0xAB, Some 0xAB] scan_hint_none = Returns \<lparr>result = nullptr\<rparr>
   \<and> in_range 4096 4100 [Some 0xAB, Some 0xAB] 4096
   \<and> 4096 mod alignment_stride X16 = 0
   \<and> matches_at (bytes_at 4096 [0xAB, 0xAB, 0xAB, 0xAB]) [Some 0xAB, Some 0xAB] 4096
   \<and> find_pattern False scalar_env X16
         (bytes_at 16 ([0x00, 0xAB] @ replicate 14 0 @ [0xAB] @ replicate 15 0))
         16 48 [None, Some 0xAB] scan_hint_none = Returns \<lparr>result = 31\<rparr>
   \<and> 31 mod alignment_stride X16 \<noteq> 0
   \<and> in_range 16 48 [None, Some 0xAB] 16
   \<and> 16 mod alignment_stride X16 = 0
   \<and> matches_at (bytes_at 16 ([0x00, 0xAB] @ replicate 14 0 @ [0xAB] @ replicate 15 0))
        [None, Some 0xAB] 16"
  by (simp add: find_pattern_def truncate_def create_def Single_def scalar_env_def scan_def
        find_pattern_FastFirst_X16_def FastFirst_X16_loop.simps next_boundary_align_def
        prev_boundary_align_def uintptr_t_of_def bytes_at_def nth_append
        size_t_of_def has_result_def get_def nullptr_def in_range_def)

section \<open>Leading wildcards\<close>

lemma find_pattern_after_scan:
  assumes "beginIt + int (truncate_offset sig) < endIt"
    and "length (snd (truncate sig)) \<le> size_t_of (endIt - (beginIt + int (truncate_offset sig)))"
    and "scan (create consteval env al (snd (truncate sig)) hnts) mem
           (beginIt + int (truncate_offset sig)) endIt = Returns k"
  shows "find_pattern consteval env al mem beginIt endIt sig hnts
     = Returns (if has_result k then \<lparr>result = get k - int (truncate_offset sig)\<rparr>
                else \<lparr>result = nullptr\<rparr>)"
  using assms by (simp add: find_pattern_def truncate_def Let_def)

lemma truncation_law:
  assumes pos: "0 < beginIt" and bound: "endIt < 2 ^ 64" and rd: "readable mem beginIt endIt"
    and sel: "scalar_kernel_selected consteval env al (Some fb # rest) hnts"
    and tail: "find_pattern consteval env al mem beginIt endIt (Some fb # rest) hnts = Returns r"
    and hr: "has_result r" and inside: "beginIt \<le> get r - int n"
  shows "find_pattern consteval env al mem beginIt endIt (replicate n None @ Some fb # rest) hnts
     = Returns \<lparr>result = get r - int n\<rparr>"
proof -
  let ?t = "Some fb # rest"
  let ?sig = "replicate n None @ ?t"
  let ?len = "Suc (length rest)"
  let ?cand0 = "scalar_candidate al beginIt endIt ?len"
  let ?candn = "\<lambda>q. scalar_candidate al (beginIt + int n) endIt ?len (q + int n)"
  from sel have sc: "scanner (create consteval env al ?t hnts) = (FastFirst, al)"
    and sg: "signature (create consteval env al ?t hnts) = ?t"
    by (simp_all add: scalar_kernel_selected_def)
  from find_pattern_scalar_first [OF pos bound rd sc sg, of 0] tail
  have fm0: "first_match ?cand0 (matches_at mem ?t) r"
    by simp
  from hr have "r \<noteq> \<lparr>result = nullptr\<rparr>" by (auto simp: has_result_def)
  with fm0 have c0: "?cand0 (result r)" and h0: "matches_at mem ?t (result r)"
    and m0: "\<forall>p. ?cand0 p \<and> p < result r \<longrightarrow> \<not> matches_at mem ?t p"
    unfolding first_match_def by blast+
  have g: "get r = result r" by (simp add: get_def)
  have hit: "\<And>q. matches_at mem ?sig q = matches_at mem ?t (q + int n)"
    by (rule matches_at_wildcards)
  from find_pattern_scalar_first [OF pos bound rd sc sg, of n]
  obtain r' where res: "find_pattern consteval env al mem beginIt endIt ?sig hnts = Returns r'"
    and fmn: "first_match ?candn (matches_at mem ?sig) r'"
    by blast
  have "first_match ?candn (matches_at mem ?sig) \<lparr>result = result r - int n\<rparr>"
  proof (rule first_matchI_found)
    show "?candn (result r - int n)"
      using c0 inside g by (simp add: scalar_candidate_def)
    show "matches_at mem ?sig (result r - int n)"
      using h0 hit by simp
  next
    fix p assume c: "?candn p" and lt: "p < result r - int n"
    from c have "?cand0 (p + int n)" by (simp add: scalar_candidate_def)
    moreover from lt have "p + int n < result r" by simp
    ultimately have "\<not> matches_at mem ?t (p + int n)" using m0 by blast
    then show "\<not> matches_at mem ?sig p" using hit by simp
  qed
  with fmn have "r' = \<lparr>result = result r - int n\<rparr>" by (rule first_match_unique)
  with res g show ?thesis by simp
qed

text \<open>
  C4: for a signature made of \<open>n\<close> leading wildcards and a tail with a concrete head, when the
  search for the tail returns a position \<open>p\<close> that is not null and \<open>p - n\<close> is not below the
  start of the range, the search for the whole signature returns \<open>p - n\<close>. And in general,
  once the range check has passed, a hit of the kernel at \<open>p\<close> makes find-first return
  \<open>p - offset\<close>, \<open>offset\<close> being the number of leading wildcards, and a miss makes it return
  null.
\<close>

theorem find_pattern_truncation_law:
  "(0 < beginIt \<and> endIt < 2 ^ 64 \<and> readable mem beginIt endIt
      \<and> scalar_kernel_selected consteval env al (Some fb # rest) hnts
      \<and> find_pattern consteval env al mem beginIt endIt (Some fb # rest) hnts = Returns r
      \<and> has_result r \<and> beginIt \<le> get r - int n
    \<longrightarrow> find_pattern consteval env al mem beginIt endIt (replicate n None @ Some fb # rest) hnts
          = Returns \<lparr>result = get r - int n\<rparr>)
   \<and> (beginIt + int (truncate_offset sig) < endIt
      \<and> length (snd (truncate sig)) \<le> size_t_of (endIt - (beginIt + int (truncate_offset sig)))
      \<and> scan (create consteval env al (snd (truncate sig)) hnts) mem
           (beginIt + int (truncate_offset sig)) endIt = Returns k
    \<longrightarrow> find_pattern consteval env al mem beginIt endIt sig hnts
          = Returns (if has_result k then \<lparr>result = get k - int (truncate_offset sig)\<rparr>
                     else \<lparr>result = nullptr\<rparr>))"
  using truncation_law find_pattern_after_scan by blast

theorem find_pattern_truncation_law_witness:
  "find_pattern True scalar_env X1 (bytes_at 100 [0x11, 0x22, 0x33, 0x44]) 100 104 [Some 0x33]
       scan_hint_none = Returns \<lparr>result = 102\<rparr>
   \<and> has_result \<lparr>result = 102\<rparr> \<and> (100 :: int) \<le> get \<lparr>result = 102\<rparr> - int 1
   \<and> find_pattern True scalar_env X1 (bytes_at 100 [0x11, 0x22, 0x33, 0x44]) 100 104
         (replicate 1 None @ [Some 0x33]) scan_hint_none = Returns \<lparr>result = 101\<rparr>
   \<and> scan (create True scalar_env X1 (snd (truncate [None, Some 0x33])) scan_hint_none)
         (bytes_at 100 [0x11, 0x22, 0x33, 0x44]) (100 + int (truncate_offset [None, Some 0x33])) 104
       = Returns \<lparr>result = 102\<rparr>
   \<and> find_pattern True scalar_env X1 (bytes_at 100 [0x11, 0x22, 0x33, 0x44]) 100 104
         [None, Some 0x33] scan_hint_none = Returns \<lparr>result = 101\<rparr>"
proof -
  let ?mem = "bytes_at 100 [0x11, 0x22, 0x33, 0x44]"
  have h1: "0 < (100 :: int)" and h2: "(104 :: int) < 2 ^ 64" by simp_all
  have h3: "readable ?mem 100 104"
    using readable_bytes_at [of 100 "[0x11, 0x22, 0x33, 0x44]"] by simp
  have h4: "scalar_kernel_selected True scalar_env X1 [Some 0x33] scan_hint_none"
    by (rule scalar_kernel_selected_consteval)
  have tl: "find_pattern True scalar_env X1 ?mem 100 104 [Some 0x33] scan_hint_none
      = Returns \<lparr>result = 102\<rparr>"
    by (simp add: find_pattern_def truncate_def create_def Single_def scalar_env_def scan_def
        find_pattern_FastFirst_X1_def FastFirst_X1_loop.simps std_find.simps bytes_at_def
        size_t_of_def has_result_def get_def nullptr_def)
  have hr: "has_result \<lparr>result = 102\<rparr>" and ins: "(100 :: int) \<le> get \<lparr>result = 102\<rparr> - int 1"
    by (simp_all add: has_result_def get_def nullptr_def)
  have sk: "scan (create True scalar_env X1 (snd (truncate [None, Some 0x33])) scan_hint_none)
         ?mem (100 + int (truncate_offset [None, Some 0x33])) 104 = Returns \<lparr>result = 102\<rparr>"
    by (simp add: truncate_def create_def Single_def scalar_env_def scan_def
        find_pattern_FastFirst_X1_def FastFirst_X1_loop.simps std_find.simps bytes_at_def)
  have p1: "(100 :: int) + int (truncate_offset [None, Some (0x33 :: byte)]) < 104"
    and p2: "length (snd (truncate [None, Some (0x33 :: byte)]))
       \<le> size_t_of (104 - (100 + int (truncate_offset [None, Some (0x33 :: byte)])))"
    by (simp_all add: truncate_def size_t_of_def)
  note law = find_pattern_truncation_law
    [where beginIt = 100 and endIt = 104 and mem = ?mem and consteval = True and env = scalar_env
       and al = X1 and fb = "0x33" and rest = "[]" and hnts = scan_hint_none
       and r = "\<lparr>result = 102\<rparr>" and n = 1 and sig = "[None, Some 0x33]"
       and k = "\<lparr>result = 102\<rparr>"]
  from law h1 h2 h3 h4 tl hr ins
  have full: "find_pattern True scalar_env X1 ?mem 100 104 (replicate 1 None @ [Some 0x33])
      scan_hint_none = Returns \<lparr>result = get \<lparr>result = 102\<rparr> - int 1\<rparr>"
    by blast
  from law p1 p2 sk
  have hit: "find_pattern True scalar_env X1 ?mem 100 104 [None, Some 0x33] scan_hint_none
      = Returns (if has_result \<lparr>result = 102\<rparr>
                 then \<lparr>result = get \<lparr>result = 102\<rparr> - int (truncate_offset [None, Some 0x33])\<rparr>
                 else \<lparr>result = nullptr\<rparr>)"
    by blast
  from full have full': "find_pattern True scalar_env X1 ?mem 100 104 (replicate 1 None @ [Some 0x33])
      scan_hint_none = Returns \<lparr>result = 101\<rparr>"
    by (simp add: get_def)
  from hit have hit': "find_pattern True scalar_env X1 ?mem 100 104 [None, Some 0x33] scan_hint_none
      = Returns \<lparr>result = 101\<rparr>"
    by (simp add: get_def has_result_def nullptr_def)
  from tl hr ins full' sk hit' show ?thesis by blast
qed

section \<open>Returned addresses and the stride\<close>

lemma find_pattern_kernel_FastFirst_aligned:
  assumes "find_pattern_kernel (FastFirst, al) mem pbegin pend context = Returns k"
  shows "result k mod alignment_stride al = 0"
proof (cases al)
  case X1
  then show ?thesis by simp
next
  case X16
  with assms have k: "find_pattern_FastFirst_X16 mem pbegin pend context = Returns k" by simp
  have "result k mod 16 = 0"
  proof (cases "signature context")
    case Nil
    with k show ?thesis by (simp add: find_pattern_FastFirst_X16_def)
  next
    case (Cons elem rest)
    show ?thesis
    proof (cases elem)
      case None
      with k Cons show ?thesis by (simp add: find_pattern_FastFirst_X16_def)
    next
      case (Some fb)
      let ?sb = "next_boundary_align X16 pbegin"
      let ?se = "prev_boundary_align X16 (pend - int (length (signature context)) + 1)"
      show ?thesis
      proof (cases "?sb \<ge> ?se")
        case True
        with k Cons Some have "k = \<lparr>result = nullptr\<rparr>"
          by (simp add: find_pattern_FastFirst_X16_def)
        then show ?thesis by (simp add: nullptr_def)
      next
        case False
        with k Cons Some have "FastFirst_X16_loop mem fb rest ?sb ?se = Returns k"
          by (simp add: find_pattern_FastFirst_X16_def Let_def)
        with next_boundary_align_X16_mod [of pbegin] show ?thesis
          by (rule FastFirst_X16_loop_aligned)
      qed
    qed
  qed
  with X16 show ?thesis by simp
qed

lemma scan_FastFirst_aligned:
  assumes "scanner context = (FastFirst, al)" and "scan context mem pbegin pend = Returns k"
  shows "result k mod alignment_stride al = 0"
  using assms find_pattern_kernel_FastFirst_aligned [of al mem pbegin pend "context" k]
  by (simp add: scan_def)

lemma find_pattern_aligned:
  assumes sc: "scanner (create consteval env al (snd (truncate sig)) hnts) = (FastFirst, al)"
    and res: "find_pattern consteval env al mem beginIt endIt sig hnts = Returns r"
    and hr: "has_result r"
  shows "(get r + int (truncate_offset sig)) mod alignment_stride al = 0"
proof -
  let ?n = "truncate_offset sig"
  let ?t = "snd (truncate sig)"
  let ?pb = "beginIt + int ?n"
  have tr: "truncate sig = (?n, ?t)" by (simp add: truncate_def Let_def)
  show ?thesis
  proof (cases "?pb \<ge> endIt \<or> length ?t > size_t_of (endIt - ?pb)")
    case True
    with res have "r = \<lparr>result = nullptr\<rparr>"
      by (auto simp: find_pattern_def truncate_def Let_def)
    with hr show ?thesis by (simp add: has_result_def)
  next
    case False
    show ?thesis
    proof (cases "scan (create consteval env al ?t hnts) mem ?pb endIt")
      case Undefined
      with False res show ?thesis by (simp add: find_pattern_def truncate_def Let_def)
    next
      case (Returns k)
      with False res
      have r: "r = (if has_result k then \<lparr>result = get k - int ?n\<rparr> else \<lparr>result = nullptr\<rparr>)"
        by (simp add: find_pattern_def truncate_def Let_def)
      with hr have "has_result k" by (auto simp: has_result_def split: if_splits)
      with r have "get r + int ?n = result k" by (simp add: get_def)
      with scan_FastFirst_aligned [OF sc Returns] show ?thesis by simp
    qed
  qed
qed

lemma find_all_bounded_loop_aligned:
  "scanner context = (FastFirst, al) \<Longrightarrow>
    \<forall>a \<in> set written. (result a + int offset) mod alignment_stride al = 0 \<Longrightarrow>
    find_all_bounded_loop context mem pend offset stride trunc_size endOut i out written
      = Returns (i', out', written') \<Longrightarrow>
    \<forall>a \<in> set written'. (result a + int offset) mod alignment_stride al = 0"
proof (induction "context" mem pend offset stride trunc_size endOut i out written
    rule: find_all_bounded_loop.induct)
  case (1 ctx mem pend offset stride trunc_size endOut i out written)
  note sc = "1.prems"(1)
  note eq = find_all_bounded_loop.simps
    [of ctx mem pend offset stride trunc_size endOut i out written]
  show ?case
  proof (cases "endOut < out")
    case True
    with "1.prems"(3) show ?thesis by (simp add: eq)
  next
    case nlt: False
    show ?thesis
    proof (cases "i < pend \<and> out \<noteq> endOut \<and> trunc_size \<le> size_t_of (pend - i)")
      case False
      with nlt "1.prems" show ?thesis by (auto simp: eq)
    next
      case cond: True
      show ?thesis
      proof (cases "scan ctx mem i pend")
        case Undefined
        with nlt cond "1.prems"(3) show ?thesis by (simp add: eq)
      next
        case (Returns k)
        show ?thesis
        proof (cases "has_result k")
          case False
          with nlt cond Returns "1.prems" show ?thesis by (auto simp: eq)
        next
          case True
          let ?a = "get k - int offset"
          from nlt cond Returns True "1.prems"(3)
          have step: "find_all_bounded_loop ctx mem pend offset stride trunc_size endOut
              (?a + stride) (out + 1) (written @ [\<lparr>result = ?a\<rparr>]) = Returns (i', out', written')"
            by (simp add: eq Let_def)
          have "result k mod alignment_stride al = 0"
            using sc Returns by (rule scan_FastFirst_aligned)
          with "1.prems"(2)
          have inv: "\<forall>a \<in> set (written @ [\<lparr>result = ?a\<rparr>]).
              (result a + int offset) mod alignment_stride al = 0"
            by (simp add: get_def)
          from "1.IH" [OF nlt cond Returns _ refl sc inv step] True show ?thesis by simp
        qed
      qed
    qed
  qed
qed

lemma find_all_counted_loop_aligned:
  assumes sc: "scanner context = (FastFirst, al)"
  shows "\<forall>a \<in> set written. (result a + int offset) mod alignment_stride al = 0 \<Longrightarrow>
    find_all_counted_loop fuel context mem pbegin pend offset stride trunc_size i written matches
      = Some (Returns (matches', written')) \<Longrightarrow>
    \<forall>a \<in> set written'. (result a + int offset) mod alignment_stride al = 0"
proof (induction fuel arbitrary: i written matches)
  case 0
  then show ?case by simp
next
  case (Suc fuel)
  show ?case
  proof (cases "pbegin < pend \<and> trunc_size \<le> size_t_of (pend - i)")
    case False
    with Suc.prems show ?thesis by auto
  next
    case cond: True
    show ?thesis
    proof (cases "scan context mem i pend")
      case Undefined
      with cond Suc.prems(2) show ?thesis by simp
    next
      case (Returns k)
      show ?thesis
      proof (cases "has_result k")
        case False
        with cond Returns Suc.prems show ?thesis by auto
      next
        case True
        let ?a = "get k - int offset"
        from cond Returns True Suc.prems(2)
        have step: "find_all_counted_loop fuel context mem pbegin pend offset stride trunc_size
            (?a + stride) (written @ [\<lparr>result = ?a\<rparr>]) (matches + 1)
              = Some (Returns (matches', written'))"
          by (simp add: Let_def)
        have "result k mod alignment_stride al = 0"
          using sc Returns by (rule scan_FastFirst_aligned)
        with Suc.prems(1)
        have inv: "\<forall>a \<in> set (written @ [\<lparr>result = ?a\<rparr>]).
            (result a + int offset) mod alignment_stride al = 0"
          by (simp add: get_def)
        from Suc.IH [OF inv step] show ?thesis .
      qed
    qed
  qed
qed

lemma stride_difference:
  "(a :: int) mod alignment_stride al = 0 \<Longrightarrow> (a - next_boundary_align al b) mod alignment_stride al = 0"
  using next_boundary_align_mod [of al b] by (simp add: mod_eq_0_iff_dvd)

lemma stride16_example_find:
  "find_pattern False scalar_env X16 (bytes_at 32 (replicate 16 0 @ [0xCD] @ replicate 15 0)) 32 64
       [None, None, Some 0xCD] scan_hint_none = Returns \<lparr>result = 46\<rparr>"
  by (simp add: find_pattern_def truncate_def create_def Single_def scalar_env_def scan_def
        find_pattern_FastFirst_X16_def FastFirst_X16_loop.simps next_boundary_align_def
        prev_boundary_align_def uintptr_t_of_def bytes_at_def nth_append
        size_t_of_def has_result_def get_def nullptr_def)

lemma stride16_example_bounded:
  "find_all_pattern_bounded False scalar_env X16 (bytes_at 32 (replicate 16 0 @ [0xCD] @ replicate 15 0))
       32 64 0 3 [None, None, Some 0xCD] scan_hint_none = Returns (62, 1, [\<lparr>result = 46\<rparr>])"
  by (simp add: find_all_pattern_bounded_def find_all_bounded_loop.simps truncate_def create_def
        Single_def scalar_env_def scan_def
        find_pattern_FastFirst_X16_def FastFirst_X16_loop.simps next_boundary_align_def
        prev_boundary_align_def uintptr_t_of_def bytes_at_def nth_append
        size_t_of_def has_result_def get_def nullptr_def)

lemma stride16_example_counted:
  "find_all_pattern_counted 2 False scalar_env X16 (bytes_at 32 (replicate 16 0 @ [0xCD] @ replicate 15 0))
       32 64 [None, None, Some 0xCD] scan_hint_none = Some (Returns (1, [\<lparr>result = 46\<rparr>]))"
  by (simp add: find_all_pattern_counted_def numeral_2_eq_2 truncate_def create_def
        Single_def scalar_env_def scan_def
        find_pattern_FastFirst_X16_def FastFirst_X16_loop.simps next_boundary_align_def
        prev_boundary_align_def uintptr_t_of_def bytes_at_def nth_append
        size_t_of_def has_result_def get_def nullptr_def)

text \<open>
  What the scalar kernel of stride \<open>s\<close> guarantees for the addresses that leave the entry
  points: for every address \<open>a\<close> that find-first returns and that is not null, and for every
  address that the bounded or the counted find-all has written when it returns, \<open>a + offset\<close>
  is congruent modulo \<open>s\<close> to the first candidate of the kernel, the first multiple of \<open>s\<close> at
  or after \<open>begin + offset\<close>; \<open>offset\<close> is the number of leading wildcards.
\<close>

lemma find_result_stride:
  assumes sc: "scanner (create consteval env al (snd (truncate sig)) hnts) = (FastFirst, al)"
  shows "(find_pattern consteval env al mem beginIt endIt sig hnts = Returns r \<and> has_result r
       \<longrightarrow> (get r + int (truncate_offset sig)
              - next_boundary_align al (beginIt + int (truncate_offset sig)))
            mod alignment_stride al = 0)
    \<and> (find_all_pattern_bounded consteval env al mem beginIt endIt beginOut endOut sig hnts
          = Returns (i, out, written)
       \<longrightarrow> (\<forall>a \<in> set written.
              (get a + int (truncate_offset sig)
                - next_boundary_align al (beginIt + int (truncate_offset sig)))
              mod alignment_stride al = 0))
    \<and> (find_all_pattern_counted fuel consteval env al mem beginIt endIt sig hnts
          = Some (Returns (matches, sink))
       \<longrightarrow> (\<forall>a \<in> set sink.
              (get a + int (truncate_offset sig)
                - next_boundary_align al (beginIt + int (truncate_offset sig)))
              mod alignment_stride al = 0))"
proof (intro conjI impI)
  assume "find_pattern consteval env al mem beginIt endIt sig hnts = Returns r \<and> has_result r"
  then have "(get r + int (truncate_offset sig)) mod alignment_stride al = 0"
    using find_pattern_aligned [OF sc] by blast
  then show "(get r + int (truncate_offset sig)
      - next_boundary_align al (beginIt + int (truncate_offset sig))) mod alignment_stride al = 0"
    by (rule stride_difference)
next
  let ?n = "truncate_offset sig"
  let ?t = "snd (truncate sig)"
  assume b: "find_all_pattern_bounded consteval env al mem beginIt endIt beginOut endOut sig hnts
      = Returns (i, out, written)"
  then obtain i0 where "find_all_bounded_loop (create consteval env al ?t hnts) mem endIt ?n
      (alignment_stride al) (length ?t) endOut (beginIt + int ?n) beginOut [] = Returns (i0, out, written)"
    by (auto simp: find_all_pattern_bounded_def truncate_def Let_def split: outcome.splits)
  with find_all_bounded_loop_aligned [OF sc, of "[]" ?n]
  have "\<forall>a \<in> set written. (result a + int ?n) mod alignment_stride al = 0"
    by simp
  then show "\<forall>a \<in> set written.
      (get a + int ?n - next_boundary_align al (beginIt + int ?n)) mod alignment_stride al = 0"
    by (simp add: get_def stride_difference)
next
  let ?n = "truncate_offset sig"
  let ?t = "snd (truncate sig)"
  assume "find_all_pattern_counted fuel consteval env al mem beginIt endIt sig hnts
      = Some (Returns (matches, sink))"
  then have "find_all_counted_loop fuel (create consteval env al ?t hnts) mem (beginIt + int ?n) endIt
      ?n (alignment_stride al) (length ?t) (beginIt + int ?n) [] 0 = Some (Returns (matches, sink))"
    by (simp add: find_all_pattern_counted_def truncate_def Let_def)
  with find_all_counted_loop_aligned [OF sc, of "[]" ?n]
  have "\<forall>a \<in> set sink. (result a + int ?n) mod alignment_stride al = 0"
    by simp
  then show "\<forall>a \<in> set sink.
      (get a + int ?n - next_boundary_align al (beginIt + int ?n)) mod alignment_stride al = 0"
    by (simp add: get_def stride_difference)
qed

lemma find_result_stride_example:
  "scanner (create False scalar_env X16 (snd (truncate [None, None, Some 0xCD])) scan_hint_none)
     = (FastFirst, X16)
   \<and> find_pattern False scalar_env X16 (bytes_at 32 (replicate 16 0 @ [0xCD] @ replicate 15 0)) 32 64
       [None, None, Some 0xCD] scan_hint_none = Returns \<lparr>result = 46\<rparr>
   \<and> has_result \<lparr>result = 46\<rparr>
   \<and> find_all_pattern_bounded False scalar_env X16
         (bytes_at 32 (replicate 16 0 @ [0xCD] @ replicate 15 0)) 32 64 0 3
         [None, None, Some 0xCD] scan_hint_none = Returns (62, 1, [\<lparr>result = 46\<rparr>])
   \<and> find_all_pattern_counted 2 False scalar_env X16
         (bytes_at 32 (replicate 16 0 @ [0xCD] @ replicate 15 0)) 32 64
         [None, None, Some 0xCD] scan_hint_none = Some (Returns (1, [\<lparr>result = 46\<rparr>]))
   \<and> (get \<lparr>result = 46\<rparr> + int (truncate_offset [None, None, Some 0xCD])
        - next_boundary_align X16 (32 + int (truncate_offset [None, None, Some 0xCD])))
       mod alignment_stride X16 = 0"
proof -
  let ?mem = "bytes_at 32 (replicate 16 0 @ [0xCD] @ replicate 15 0)"
  let ?sig = "[None, None, Some (0xCD :: byte)]"
  have sc: "scanner (create False scalar_env X16 (snd (truncate ?sig)) scan_hint_none)
     = (FastFirst, X16)"
    by (simp add: create_def Single_def scalar_env_def)
  have hr: "has_result \<lparr>result = 46\<rparr>"
    by (simp add: has_result_def nullptr_def)
  note st = find_result_stride [OF sc, where mem = ?mem and beginIt = 32 and endIt = 64
      and r = "\<lparr>result = 46\<rparr>" and beginOut = 0 and endOut = 3 and i = 62 and out = 1
      and written = "[\<lparr>result = 46\<rparr>]" and fuel = 2 and matches = 1
      and sink = "[\<lparr>result = 46\<rparr>]"]
  from st stride16_example_find hr
  have "(get \<lparr>result = 46\<rparr> + int (truncate_offset ?sig)
        - next_boundary_align X16 (32 + int (truncate_offset ?sig))) mod alignment_stride X16 = 0"
    by blast
  with sc stride16_example_find hr stride16_example_bounded stride16_example_counted show ?thesis by blast
qed

text \<open>
  C7: every address \<open>a\<close> that a stride-16 search returns should satisfy
  \<open>(a - first_candidate) mod 16 = 0\<close>, the first candidate being a multiple of 16. On the 32
  bytes at \<open>[32, 64)\<close> with \<open>CD\<close> at 48, the stride-16 search for \<open>? ? CD\<close> returns 46: the
  kernel finds the truncated signature at the aligned address 48 and the two leading wildcards
  are subtracted afterwards. 46 is congruent modulo 16 neither to the first aligned address of
  the range, 32, nor to the kernel's first candidate, 48.
\<close>

theorem find_pattern_X16_result_not_congruent:
  "find_pattern False scalar_env X16 (bytes_at 32 (replicate 16 0 @ [0xCD] @ replicate 15 0)) 32 64
       [None, None, Some 0xCD] scan_hint_none = Returns \<lparr>result = 46\<rparr>
   \<and> (46 - next_boundary_align X16 32) mod alignment_stride X16 \<noteq> 0
   \<and> (46 - next_boundary_align X16 (32 + 2)) mod alignment_stride X16 \<noteq> 0"
  using stride16_example_find by (simp add: next_boundary_align_def uintptr_t_of_def)

section \<open>Constant evaluation\<close>

lemma compare_at_matches:
  "readable mem p (p + int (length sig)) \<Longrightarrow> compare_at mem sig p = Returns (matches_at mem sig p)"
proof (induction sig arbitrary: p)
  case Nil
  show ?case by simp
next
  case (Cons elem elems)
  from Cons.prems obtain b where b: "mem p = Some b"
    using readable_at [of mem p "p + int (length (elem # elems))" p] by auto
  have "readable mem (p + 1) (p + 1 + int (length elems))"
    using Cons.prems by (rule readable_mono) auto
  then have "compare_at mem elems (p + 1) = Returns (matches_at mem elems (p + 1))"
    by (rule Cons.IH)
  with b show ?case by auto
qed

lemma vector_loop_X1_first:
  "readable mem p (scanEnd + int (length sig) - 1) \<Longrightarrow>
   \<exists>r. vector_loop X1 mem sig p scanEnd = Returns r
     \<and> first_match (\<lambda>q. p \<le> q \<and> q < scanEnd) (matches_at mem sig) r"
proof (induction X1 mem sig p scanEnd rule: vector_loop.induct)
  case (1 mem sig p scanEnd)
  note eq = vector_loop.simps [of X1 mem sig p scanEnd]
  show ?case
  proof (cases "scanEnd \<le> p")
    case True
    then have "vector_loop X1 mem sig p scanEnd = Returns \<lparr>result = nullptr\<rparr>"
      by (simp add: eq)
    moreover have "first_match (\<lambda>q. p \<le> q \<and> q < scanEnd) (matches_at mem sig) \<lparr>result = nullptr\<rparr>"
      by (rule first_matchI_null) (use True in simp)
    ultimately show ?thesis by blast
  next
    case False
    have "readable mem p (p + int (length sig))"
      using "1.prems" by (rule readable_mono) (use False in simp_all)
    then have cmp: "compare_at mem sig p = Returns (matches_at mem sig p)"
      by (rule compare_at_matches)
    show ?thesis
    proof (cases "matches_at mem sig p")
      case True
      with False cmp have "vector_loop X1 mem sig p scanEnd = Returns \<lparr>result = p\<rparr>"
        by (simp add: eq)
      moreover have "first_match (\<lambda>q. p \<le> q \<and> q < scanEnd) (matches_at mem sig) \<lparr>result = p\<rparr>"
        by (rule first_matchI_found) (use False True in simp_all)
      ultimately show ?thesis by blast
    next
      case nm: False
      with False cmp have step: "vector_loop X1 mem sig p scanEnd = vector_loop X1 mem sig (p + 1) scanEnd"
        by (simp add: eq)
      have rd': "readable mem (p + alignment_stride X1) (scanEnd + int (length sig) - 1)"
        using "1.prems" by (rule readable_mono) simp_all
      from "1.hyps" [OF False cmp nm rd']
      obtain r where r: "vector_loop X1 mem sig (p + 1) scanEnd = Returns r"
        and fm: "first_match (\<lambda>q. p + 1 \<le> q \<and> q < scanEnd) (matches_at mem sig) r"
        by auto
      have "first_match (\<lambda>q. p \<le> q \<and> q < scanEnd) (matches_at mem sig) r"
        using fm unfolding first_match_def
      proof (elim disjE conjE)
        assume rn: "r = \<lparr>result = nullptr\<rparr>"
          and no: "\<forall>q. p + 1 \<le> q \<and> q < scanEnd \<longrightarrow> \<not> matches_at mem sig q"
        have "\<forall>q. p \<le> q \<and> q < scanEnd \<longrightarrow> \<not> matches_at mem sig q"
        proof (intro allI impI)
          fix q assume q: "p \<le> q \<and> q < scanEnd"
          show "\<not> matches_at mem sig q"
          proof (cases "q = p")
            case True with nm show ?thesis by simp
          next
            case False with q no show ?thesis by auto
          qed
        qed
        with rn show "r = \<lparr>result = nullptr\<rparr> \<and> (\<forall>q. p \<le> q \<and> q < scanEnd \<longrightarrow> \<not> matches_at mem sig q)
          \<or> (p \<le> result r \<and> result r < scanEnd) \<and> matches_at mem sig (result r)
             \<and> (\<forall>q. (p \<le> q \<and> q < scanEnd) \<and> q < result r \<longrightarrow> \<not> matches_at mem sig q)"
          by blast
      next
        assume a: "p + 1 \<le> result r" "result r < scanEnd" "matches_at mem sig (result r)"
          and mn: "\<forall>q. (p + 1 \<le> q \<and> q < scanEnd) \<and> q < result r \<longrightarrow> \<not> matches_at mem sig q"
        have "\<forall>q. (p \<le> q \<and> q < scanEnd) \<and> q < result r \<longrightarrow> \<not> matches_at mem sig q"
        proof (intro allI impI)
          fix q assume q: "(p \<le> q \<and> q < scanEnd) \<and> q < result r"
          show "\<not> matches_at mem sig q"
          proof (cases "q = p")
            case True with nm show ?thesis by simp
          next
            case False with q mn show ?thesis by auto
          qed
        qed
        moreover have "p \<le> result r" using a(1) by simp
        ultimately show "r = \<lparr>result = nullptr\<rparr> \<and> (\<forall>q. p \<le> q \<and> q < scanEnd \<longrightarrow> \<not> matches_at mem sig q)
          \<or> (p \<le> result r \<and> result r < scanEnd) \<and> matches_at mem sig (result r)
             \<and> (\<forall>q. (p \<le> q \<and> q < scanEnd) \<and> q < result r \<longrightarrow> \<not> matches_at mem sig q)"
          using a by blast
      qed
      with step r show ?thesis by simp
    qed
  qed
qed

lemma scalar_candidate_X1:
  "scalar_candidate X1 pbegin pend len = (\<lambda>q. pbegin \<le> q \<and> q < pend - int len + 1)"
  by (rule ext) (simp add: scalar_candidate_def prev_boundary_align_def)

lemma find_pattern_vector_X1_first:
  assumes "readable mem pbegin pend"
  shows "\<exists>r. find_pattern_vector X1 mem pbegin pend context = Returns r
    \<and> first_match (scalar_candidate X1 pbegin pend (length (signature context)))
         (matches_at mem (signature context)) r"
proof -
  let ?n = "length (signature context)"
  have "readable mem pbegin (pend - int ?n + 1 + int ?n - 1)"
    using assms by simp
  from vector_loop_X1_first [OF this]
  show ?thesis
    by (simp add: find_pattern_vector_def next_boundary_align_def scalar_candidate_X1)
qed

lemma scan_X1_first:
  assumes al: "snd (scanner context) = X1"
    and sg: "signature context = Some fb # rest"
    and len: "pbegin + int (length (signature context)) \<le> pend"
    and rd: "readable mem pbegin pend"
  shows "\<exists>r. scan context mem pbegin pend = Returns r
    \<and> first_match (scalar_candidate X1 pbegin pend (length (signature context)))
         (matches_at mem (signature context)) r"
proof -
  obtain mode where sc: "scanner context = (mode, X1)"
    using al by (cases "scanner context") simp
  show ?thesis
  proof (cases "mode = FastFirst")
    case True
    with sc find_pattern_kernel_FastFirst_first [OF sg len rd, of X1] show ?thesis
      by (simp add: scan_def)
  next
    case False
    then have "find_pattern_kernel (mode, X1) = find_pattern_vector X1"
      by (cases mode) simp_all
    with sc find_pattern_vector_X1_first [OF rd, of "context"] show ?thesis
      by (simp add: scan_def)
  qed
qed

lemma create_consteval:
  "create True env al sig hnts
     = \<lparr>signature = sig, scanner = (FastFirst, al), alignment = al, vectorSize = 0, hints = hnts\<rparr>"
  by (simp add: create_def Single_def)

lemma find_pattern_consteval_eq_runtime:
  assumes inv: "signature_invariants sig" and rd: "readable mem beginIt endIt"
    and sg: "signature (create False env X1 (snd (truncate sig)) hnts) = snd (truncate sig)"
    and al: "snd (scanner (create False env X1 (snd (truncate sig)) hnts)) = X1"
  shows "find_pattern True env X1 mem beginIt endIt sig hnts
    = find_pattern False env X1 mem beginIt endIt sig hnts"
proof -
  let ?n = "truncate_offset sig"
  let ?t = "snd (truncate sig)"
  let ?pb = "beginIt + int ?n"
  let ?ct = "create True env X1 ?t hnts"
  let ?rt = "create False env X1 ?t hnts"
  have tr: "truncate sig = (?n, ?t)" by (simp add: truncate_def Let_def)
  from signature_invariants_shape [OF inv] obtain fb rest
    where shape: "sig = replicate ?n None @ Some fb # rest" by blast
  have "snd (truncate (replicate ?n None @ Some fb # rest)) = Some fb # rest"
    by (simp add: truncate_append)
  with shape have t: "?t = Some fb # rest" by simp
  show ?thesis
  proof (cases "?pb \<ge> endIt \<or> length ?t > size_t_of (endIt - ?pb)")
    case True
    then show ?thesis by (simp add: find_pattern_def truncate_def Let_def)
  next
    case False
    then have lt: "?pb < endIt" and sz: "length ?t \<le> size_t_of (endIt - ?pb)" by simp_all
    have "(endIt - ?pb) mod 2 ^ 64 \<le> endIt - ?pb"
      using lt by (intro zmod_le_nonneg_dividend) simp
    with sz have len: "?pb + int (length ?t) \<le> endIt"
      by (simp add: size_t_of_def)
    have rd': "readable mem ?pb endIt"
      using rd by (rule readable_mono) simp_all
    have ct: "snd (scanner ?ct) = X1" "signature ?ct = Some fb # rest"
      by (simp_all add: create_consteval t)
    have rt: "signature ?rt = Some fb # rest" using sg t by simp
    from len ct(2) have lenc: "?pb + int (length (signature ?ct)) \<le> endIt" using t by simp
    from len rt have lenr: "?pb + int (length (signature ?rt)) \<le> endIt" using t by simp
    from scan_X1_first [OF ct(1) ct(2) lenc rd']
    obtain k1 where k1: "scan ?ct mem ?pb endIt = Returns k1"
      and f1: "first_match (scalar_candidate X1 ?pb endIt (length (signature ?ct)))
         (matches_at mem (signature ?ct)) k1"
      by blast
    from scan_X1_first [OF al rt lenr rd']
    obtain k2 where k2: "scan ?rt mem ?pb endIt = Returns k2"
      and f2: "first_match (scalar_candidate X1 ?pb endIt (length (signature ?rt)))
         (matches_at mem (signature ?rt)) k2"
      by blast
    from f1 f2 have "k1 = k2"
      unfolding ct(2) rt by (rule first_match_unique)
    with k1 k2 have "scan ?ct mem ?pb endIt = scan ?rt mem ?pb endIt" by simp
    then show ?thesis
      by (simp add: find_pattern_def truncate_def Let_def)
  qed
qed

text \<open>
  C8: in a constant-evaluated call \<open>create\<close> stores the scalar kernel of the requested
  alignment, whatever the dispatcher and the hint application of the machine are: neither is
  consulted, and the vector size stays 0. The search it then makes returns what the search at
  run time returns. Only the stride-1 scalar kernel is declared \<^verbatim>\<open>constexpr\<close>, so the
  comparison is for alignment 1; the run-time context may hold any kernel of alignment 1, the
  vector kernels being the ones modelled from the specification, on a readable range and a
  signature that satisfies its invariants.
\<close>

theorem consteval_selects_scalar_kernel:
  "create True env al sig hnts
     = \<lparr>signature = sig, scanner = (FastFirst, al), alignment = al, vectorSize = 0, hints = hnts\<rparr>
   \<and> (signature_invariants sig \<and> readable mem beginIt endIt
        \<and> signature (create False env X1 (snd (truncate sig)) hnts) = snd (truncate sig)
        \<and> snd (scanner (create False env X1 (snd (truncate sig)) hnts)) = X1
      \<longrightarrow> find_pattern True env X1 mem beginIt endIt sig hnts
            = find_pattern False env X1 mem beginIt endIt sig hnts)"
  using create_consteval find_pattern_consteval_eq_runtime by blast

theorem consteval_selects_scalar_kernel_witness:
  "create True avx2_env X1 [Some 0x33] scan_hint_x86_64
     = \<lparr>signature = [Some 0x33], scanner = (FastFirst, X1), alignment = X1, vectorSize = 0,
        hints = scan_hint_x86_64\<rparr>
   \<and> scanner (create False avx2_env X1 (snd (truncate [None, Some 0x33])) scan_hint_none) = (AVX2, X1)
   \<and> signature_invariants [None, Some 0x33]
   \<and> readable (bytes_at 100 [0x11, 0x22, 0x33, 0x44]) 100 104
   \<and> find_pattern True avx2_env X1 (bytes_at 100 [0x11, 0x22, 0x33, 0x44]) 100 104
         [None, Some 0x33] scan_hint_none = Returns \<lparr>result = 101\<rparr>
   \<and> find_pattern False avx2_env X1 (bytes_at 100 [0x11, 0x22, 0x33, 0x44]) 100 104
         [None, Some 0x33] scan_hint_none = Returns \<lparr>result = 101\<rparr>"
proof -
  let ?mem = "bytes_at 100 [0x11, 0x22, 0x33, 0x44]"
  let ?sig = "[None, Some (0x33 :: byte)]"
  note sel = consteval_selects_scalar_kernel
  have c: "create True avx2_env X1 [Some 0x33] scan_hint_x86_64
     = \<lparr>signature = [Some 0x33], scanner = (FastFirst, X1), alignment = X1, vectorSize = 0,
        hints = scan_hint_x86_64\<rparr>"
    using sel [of avx2_env X1 "[Some 0x33]" scan_hint_x86_64] by blast
  have rs: "scanner (create False avx2_env X1 (snd (truncate ?sig)) scan_hint_none) = (AVX2, X1)"
    and sg: "signature (create False avx2_env X1 (snd (truncate ?sig)) scan_hint_none)
        = snd (truncate ?sig)"
    by (simp_all add: create_def avx2_env_def)
  have h1: "signature_invariants ?sig"
    by (simp add: signature_invariants_def truncate_def)
  have h2: "readable ?mem 100 104"
    using readable_bytes_at [of 100 "[0x11, 0x22, 0x33, 0x44]"] by simp
  have ev: "find_pattern True avx2_env X1 ?mem 100 104 ?sig scan_hint_none = Returns \<lparr>result = 101\<rparr>"
    by (simp add: find_pattern_def truncate_def create_def Single_def scalar_env_def scan_def
        find_pattern_FastFirst_X1_def FastFirst_X1_loop.simps std_find.simps bytes_at_def
        size_t_of_def has_result_def get_def nullptr_def)
  from rs have al: "snd (scanner (create False avx2_env X1 (snd (truncate ?sig)) scan_hint_none)) = X1"
    by simp
  from sel [of avx2_env X1 ?sig scan_hint_none ?mem 100 104] h1 h2 sg al
  have "find_pattern True avx2_env X1 ?mem 100 104 ?sig scan_hint_none
      = find_pattern False avx2_env X1 ?mem 100 104 ?sig scan_hint_none"
    by blast
  with ev have "find_pattern False avx2_env X1 ?mem 100 104 ?sig scan_hint_none
      = Returns \<lparr>result = 101\<rparr>"
    by simp
  with c rs h1 h2 ev show ?thesis by blast
qed

end
